theory Spec2Isabelle
  imports Main
begin

section \<open>Go strings, runes and UTF-8\<close>

text \<open>
  A Go \<^verbatim>\<open>string\<close> is a sequence of bytes; \<^typ>\<open>string\<close> (a list of 8-bit
  \<^typ>\<open>char\<close>) is exactly that, and \<open>length\<close> is Go's \<^verbatim>\<open>len\<close>. A
  \<^verbatim>\<open>rune\<close> is a code point; the runes met here come out of UTF-8 decoding and are
  never negative, so they are natural numbers.
\<close>

type_synonym rune = nat

abbreviation byteval :: "char \<Rightarrow> nat" where
  "byteval \<equiv> of_char"

definition RuneError :: rune where
  "RuneError = 0xFFFD"

definition continuation :: "char \<Rightarrow> bool" where
  "continuation c = (0x80 \<le> byteval c \<and> byteval c \<le> 0xBF)"

text \<open>
  The decoding step of \<^verbatim>\<open>for pos, char := range str\<close> (Go language specification,
  "For statements with range clause"; the runtime's \<^verbatim>\<open>decoderune\<close>): the code point
  that starts at the head of the remaining bytes and its width. An invalid sequence
  (a stray continuation byte, a truncated, overlong, surrogate or too large encoding)
  yields U+FFFD and a width of one byte.
\<close>

fun decoderune :: "string \<Rightarrow> rune \<times> nat" where
  "decoderune [] = (RuneError, 1)"
| "decoderune (c0 # rest) =
     (let b0 = byteval c0 in
      if b0 < 0x80 then (b0, 1)
      else if 0xC0 \<le> b0 \<and> b0 < 0xE0 then
        (case rest of
           c1 # _ \<Rightarrow>
             if continuation c1 then
               (let r = (b0 mod 0x20) * 0x40 + byteval c1 mod 0x40
                in if 0x7F < r then (r, 2) else (RuneError, 1))
             else (RuneError, 1)
         | _ \<Rightarrow> (RuneError, 1))
      else if 0xE0 \<le> b0 \<and> b0 < 0xF0 then
        (case rest of
           c1 # c2 # _ \<Rightarrow>
             if continuation c1 \<and> continuation c2 then
               (let r = (b0 mod 0x10) * 0x1000 + (byteval c1 mod 0x40) * 0x40
                        + byteval c2 mod 0x40
                in if 0x7FF < r \<and> \<not> (0xD800 \<le> r \<and> r \<le> 0xDFFF) then (r, 3)
                   else (RuneError, 1))
             else (RuneError, 1)
         | _ \<Rightarrow> (RuneError, 1))
      else if 0xF0 \<le> b0 \<and> b0 < 0xF8 then
        (case rest of
           c1 # c2 # c3 # _ \<Rightarrow>
             if continuation c1 \<and> continuation c2 \<and> continuation c3 then
               (let r = (b0 mod 0x08) * 0x40000 + (byteval c1 mod 0x40) * 0x1000
                        + (byteval c2 mod 0x40) * 0x40 + byteval c3 mod 0x40
                in if 0xFFFF < r \<and> r \<le> 0x10FFFF then (r, 4) else (RuneError, 1))
             else (RuneError, 1)
         | _ \<Rightarrow> (RuneError, 1))
      else (RuneError, 1))"

lemma decoderune_width: "0 < snd (decoderune s)"
  by (cases s) (simp_all add: Let_def split: list.split)

lemma decoderune_le_length: "s \<noteq> [] \<Longrightarrow> snd (decoderune s) \<le> length s"
  by (cases s) (simp_all add: Let_def split: list.split)

lemma decoderune_ascii: "byteval c < 0x80 \<Longrightarrow> decoderune (c # cs) = (byteval c, 1)"
  by simp

lemma decoderune_ascii_iff: "fst (decoderune (c # cs)) < 0x80 \<longleftrightarrow> byteval c < 0x80"
  by (simp add: Let_def RuneError_def split: list.split)

declare decoderune.simps [simp del]

text \<open>
  \<^verbatim>\<open>for pos, char := range str\<close>: the pairs (byte index, rune) of the iteration, in
  order. \<open>rangeFrom pos s\<close> iterates over the bytes \<open>s\<close> that remain from byte
  index \<open>pos\<close> on.
\<close>

function rangeFrom :: "nat \<Rightarrow> string \<Rightarrow> (nat \<times> rune) list" where
  "rangeFrom pos s =
     (if s = [] then []
      else (let (r, w) = decoderune s in (pos, r) # rangeFrom (pos + w) (drop w s)))"
  by pat_completeness auto
termination
proof (relation "measure (\<lambda>(pos, s). length s)")
  show "wf (measure (\<lambda>(pos, s). length s))" by simp
next
  fix pos :: nat and s :: string and x :: "rune \<times> nat" and r w
  assume "s \<noteq> []" and "x = decoderune s" and "(r, w) = x"
  then have "0 < w" using decoderune_width [of s] by (metis snd_conv)
  with \<open>s \<noteq> []\<close> show "((pos + w, drop w s), (pos, s)) \<in> measure (\<lambda>(pos, s). length s)"
    by simp
qed

declare rangeFrom.simps [simp del]

definition rangeStr :: "string \<Rightarrow> (nat \<times> rune) list" where
  "rangeStr s = rangeFrom 0 s"

text \<open>
  \<^verbatim>\<open>string(token)\<close> for a \<^verbatim>\<open>[]rune\<close>: the concatenation of the UTF-8 encodings
  of the runes; a rune that is no valid code point is encoded as U+FFFD.
\<close>

definition encoderune :: "rune \<Rightarrow> string" where
  "encoderune r =
     (if r < 0x80 then [char_of r]
      else if r < 0x800 then [char_of (0xC0 + r div 0x40), char_of (0x80 + r mod 0x40)]
      else if 0x10FFFF < r \<or> (0xD800 \<le> r \<and> r \<le> 0xDFFF) then
        [char_of (0xEF::nat), char_of (0xBF::nat), char_of (0xBD::nat)]
      else if r < 0x10000 then
        [char_of (0xE0 + r div 0x1000), char_of (0x80 + (r div 0x40) mod 0x40),
         char_of (0x80 + r mod 0x40)]
      else
        [char_of (0xF0 + r div 0x40000), char_of (0x80 + (r div 0x1000) mod 0x40),
         char_of (0x80 + (r div 0x40) mod 0x40), char_of (0x80 + r mod 0x40)])"

text \<open>
  \<^verbatim>\<open>utf8.ValidRune\<close>: the code points that UTF-8 can encode, that is all up to
  U+10FFFF but the surrogate halves.
\<close>

definition ValidRune :: "rune \<Rightarrow> bool" where
  "ValidRune r = (r < 0xD800 \<or> (0xDFFF < r \<and> r \<le> 0x10FFFF))"

definition string_of_runes :: "rune list \<Rightarrow> string" where
  "string_of_runes rs = concat (map encoderune rs)"

text \<open>
  \<^verbatim>\<open>strings.ContainsRune(s, r)\<close>: whether the code point \<open>r\<close> is among the code
  points of \<open>s\<close>. \<^verbatim>\<open>strings.Contains(s, substr)\<close>: whether \<open>substr\<close> occurs in
  \<open>s\<close> as a run of consecutive bytes.
\<close>

definition ContainsRune :: "string \<Rightarrow> rune \<Rightarrow> bool" where
  "ContainsRune s r = (r \<in> set (map snd (rangeStr s)))"

fun Contains :: "string \<Rightarrow> string \<Rightarrow> bool" where
  "Contains [] substr = (substr = [])"
| "Contains (c # cs) substr = (take (length substr) (c # cs) = substr \<or> Contains cs substr)"

text \<open>
  An index expression \<^verbatim>\<open>s[i]\<close> on a string: out of range, the Go runtime panics.
\<close>

datatype runtime_panic = IndexOutOfRange

definition index :: "string \<Rightarrow> nat \<Rightarrow> runtime_panic + char" where
  "index s i = (if i < length s then Inr (s ! i) else Inl IndexOutOfRange)"

section \<open>strings.TrimSpace\<close>

text \<open>
  \<^verbatim>\<open>unicode.IsSpace\<close>: the code points with Unicode's White_Space property, in
  Latin-1 and beyond it.
\<close>

definition IsSpace :: "rune \<Rightarrow> bool" where
  "IsSpace r =
     (if r \<le> 0xFF then
        r = 0x09 \<or> r = 0x0A \<or> r = 0x0B \<or> r = 0x0C \<or> r = 0x0D \<or> r = 0x20
        \<or> r = 0x85 \<or> r = 0xA0
      else
        r = 0x1680 \<or> (0x2000 \<le> r \<and> r \<le> 0x200A) \<or> r = 0x2028 \<or> r = 0x2029
        \<or> r = 0x202F \<or> r = 0x205F \<or> r = 0x3000)"

text \<open>
  \<^verbatim>\<open>utf8.RuneStart\<close> and \<^verbatim>\<open>utf8.DecodeLastRuneInString\<close>: the last code point of
  a string and its width, found by stepping back over at most three continuation
  bytes to the byte that starts it.
\<close>

definition RuneStart :: "char \<Rightarrow> bool" where
  "RuneStart c = (\<not> continuation c)"

function lastRuneStart :: "string \<Rightarrow> int \<Rightarrow> int \<Rightarrow> int" where
  "lastRuneStart s lim start =
     (if lim \<le> start then
        (if RuneStart (s ! nat start) then start else lastRuneStart s lim (start - 1))
      else start)"
  by pat_completeness auto
termination
  by (relation "measure (\<lambda>(s, lim, start). nat (start - lim + 1))") auto

declare lastRuneStart.simps [simp del]

definition DecodeLastRune :: "string \<Rightarrow> rune \<times> nat" where
  "DecodeLastRune s =
     (if s = [] then (RuneError, 0)
      else if byteval (last s) < 0x80 then (byteval (last s), 1)
      else
        (let end = int (length s);
             lim = (if end - 4 < 0 then 0 else end - 4);
             start0 = lastRuneStart s lim (end - 2);
             start = (if start0 < 0 then 0 else start0);
             (r, size) = decoderune (drop (nat start) s)
         in if start + int size \<noteq> end then (RuneError, 1) else (r, size)))"

lemma DecodeLastRune_width: "s \<noteq> [] \<Longrightarrow> 0 < snd (DecodeLastRune s)"
proof -
  have "\<And>t r w. decoderune t = (r, w) \<Longrightarrow> 0 < w"
    using decoderune_width by (metis snd_conv)
  then show "s \<noteq> [] \<Longrightarrow> 0 < snd (DecodeLastRune s)"
    by (auto simp: DecodeLastRune_def Let_def split: prod.split)
qed

text \<open>
  \<^verbatim>\<open>strings.TrimSpace\<close>: the string without its leading and trailing white space, as
  defined by Unicode (\<^verbatim>\<open>TrimLeftFunc\<close> and then \<^verbatim>\<open>TrimRightFunc\<close> with
  \<^verbatim>\<open>unicode.IsSpace\<close>).
\<close>

function TrimLeftSpace :: "string \<Rightarrow> string" where
  "TrimLeftSpace s =
     (if s = [] then []
      else (let (r, w) = decoderune s in if IsSpace r then TrimLeftSpace (drop w s) else s))"
  by pat_completeness auto
termination
proof (relation "measure length")
  show "wf (measure length)" by simp
next
  fix s :: string and x :: "rune \<times> nat" and r w
  assume "s \<noteq> []" and "x = decoderune s" and "(r, w) = x" and "IsSpace r"
  then have "0 < w" using decoderune_width [of s] by (metis snd_conv)
  with \<open>s \<noteq> []\<close> show "(drop w s, s) \<in> measure length" by simp
qed

declare TrimLeftSpace.simps [simp del]

function TrimRightSpace :: "string \<Rightarrow> string" where
  "TrimRightSpace s =
     (if s = [] then []
      else (let (r, w) = DecodeLastRune s
            in if IsSpace r then TrimRightSpace (take (length s - w) s) else s))"
  by pat_completeness auto
termination
proof (relation "measure length")
  show "wf (measure length)" by simp
next
  fix s :: string and x :: "rune \<times> nat" and r w
  assume "s \<noteq> []" and "x = DecodeLastRune s" and "(r, w) = x" and "IsSpace r"
  then have "0 < w" using DecodeLastRune_width [of s] by (metis snd_conv)
  with \<open>s \<noteq> []\<close> show "(take (length s - w) s, s) \<in> measure length" by simp
qed

declare TrimRightSpace.simps [simp del]

definition TrimSpace :: "string \<Rightarrow> string" where
  "TrimSpace s = TrimRightSpace (TrimLeftSpace s)"

text \<open>
  The six white-space characters of ASCII (the \<^verbatim>\<open>asciiSpace\<close> table of package
  \<^verbatim>\<open>strings\<close>): tab, newline, vertical tab, form feed, carriage return and space.
\<close>

definition asciiSpace :: "char \<Rightarrow> bool" where
  "asciiSpace c = (c \<in> set [CHR 0x09, CHR 0x0A, CHR 0x0B, CHR 0x0C, CHR 0x0D, CHR 0x20])"

section \<open>shelltoken.Parse\<close>

datatype error = ErrUnbalancedQuotes

text \<open>
  The local variables of \<^verbatim>\<open>Parse\<close> that the loop reads and writes. \<open>token\<close> is
  \<open>None\<close> for the nil slice, which the code tells apart from an empty one.
\<close>

record scan_state =
  token :: "rune list option"
  inQuotes :: bool
  inDbl :: bool
  escaped :: bool
  argv :: "string list"

definition init_state :: scan_state where
  "init_state = \<lparr>token = None, inQuotes = False, inDbl = False, escaped = False, argv = []\<rparr>"

definition separator :: string where
  "separator = [CHR '' '', CHR 0x09, CHR 0x0A, CHR 0x0D]"

definition makeToken :: "scan_state \<Rightarrow> scan_state" where
  "makeToken st = (case token st of None \<Rightarrow> st\<lparr>token := Some []\<rparr> | Some t \<Rightarrow> st)"

definition addToken :: "rune \<Rightarrow> scan_state \<Rightarrow> scan_state" where
  "addToken char st =
     (let st1 = st\<lparr>escaped := False\<rparr>;
          st2 = makeToken st1
      in (case token st2 of
            Some t \<Rightarrow> st2\<lparr>token := Some (t @ [char])\<rparr>
          | None \<Rightarrow> st2\<lparr>token := Some [char]\<rparr>))"

text \<open>
  The body of the loop, for the rune \<open>char\<close> at byte index \<open>pos\<close> of the trimmed
  string \<open>str\<close>. The runes \<open>0x5C\<close>, \<open>0x22\<close> and \<open>0x27\<close> are the backslash, the
  double quote and the single quote.
\<close>

definition Parse_step :: "string \<Rightarrow> nat \<Rightarrow> rune \<Rightarrow> scan_state \<Rightarrow> runtime_panic + scan_state" where
  "Parse_step str pos char st =
     (if \<not> escaped st \<and> char = 0x5C then
        (let st1 = st\<lparr>escaped := True\<rparr> in
         if inQuotes st1 then Inr (addToken char st1)
         else if inDbl st1 then
           (if length str > pos then
              (case index str (pos + 1) of
                 Inl p \<Rightarrow> Inl p
               | Inr c \<Rightarrow>
                   if c = CHR 0x22 then Inr st1
                   else if c = CHR 0x5C then Inr st1
                   else Inr (addToken char st1))
            else Inr st1)
         else Inr st1)
      else if \<not> escaped st \<and> char = 0x22 then
        (let st1 = makeToken st in
         if \<not> inQuotes st1 then Inr (st1\<lparr>inDbl := \<not> inDbl st1\<rparr>)
         else Inr (addToken char st1))
      else if \<not> escaped st \<and> char = 0x27 then
        (let st1 = makeToken st in
         if \<not> inDbl st1 then Inr (st1\<lparr>inQuotes := \<not> inQuotes st1\<rparr>)
         else Inr (addToken char st1))
      else if \<not> escaped st \<and> ContainsRune separator char then
        (if inQuotes st \<or> inDbl st then Inr (addToken char st)
         else (case token st of
                 Some t \<Rightarrow> Inr (st\<lparr>argv := argv st @ [string_of_runes t], token := None\<rparr>)
               | None \<Rightarrow> Inr st))
      else Inr (addToken char st))"

fun Parse_loop :: "string \<Rightarrow> (nat \<times> rune) list \<Rightarrow> scan_state \<Rightarrow> runtime_panic + scan_state" where
  "Parse_loop str [] st = Inr st"
| "Parse_loop str ((pos, char) # rest) st =
     (case Parse_step str pos char st of
        Inl p \<Rightarrow> Inl p
      | Inr st' \<Rightarrow> Parse_loop str rest st')"

text \<open>
  \<^verbatim>\<open>extractEnvFromArgv\<close>: the loop over the indices of its argument (\<open>argv0\<close>
  here: \<open>argv\<close> is the field of the scan state), and the plain \<^verbatim>\<open>return\<close> of the
  nil results after it. \<open>extractEnvFrom i rest argv0\<close> is the loop at index \<open>i\<close>, with
  \<open>rest\<close> the elements from \<open>i\<close> on.
\<close>

fun extractEnvFrom :: "nat \<Rightarrow> string list \<Rightarrow> string list \<Rightarrow> string list \<times> string list" where
  "extractEnvFrom i [] argv0 = ([], [])"
| "extractEnvFrom i (s # rest) argv0 =
     (if \<not> Contains s ''='' then (take i argv0, drop i argv0)
      else extractEnvFrom (Suc i) rest argv0)"

definition extractEnvFromArgv :: "string list \<Rightarrow> string list \<times> string list" where
  "extractEnvFromArgv argv0 = extractEnvFrom 0 argv0 argv0"

text \<open>
  \<^verbatim>\<open>Parse\<close> in its three stages: the scan of the trimmed string (lines 24 to 96),
  the append of the last token (lines 98 to 104), and the check of the quote flags
  followed by the split (lines 106 to 115). The result is the triple
  \<open>(env, argv, err)\<close>, a nil slice being the empty list, or the panic of the run.
\<close>

definition Parse_scan :: "string \<Rightarrow> runtime_panic + scan_state" where
  "Parse_scan str = Parse_loop str (rangeStr str) init_state"

definition Parse_tokens :: "scan_state \<Rightarrow> string list" where
  "Parse_tokens st =
     (case token st of
        None \<Rightarrow> argv st @ ['''']
      | Some t \<Rightarrow> argv st @ [string_of_runes t])"

definition Parse_finish :: "scan_state \<Rightarrow> string list \<times> string list \<times> error option" where
  "Parse_finish st =
     (let argv1 = Parse_tokens st in
      if inQuotes st then ([], [], Some ErrUnbalancedQuotes)
      else if inDbl st then ([], [], Some ErrUnbalancedQuotes)
      else (let (env, args) = extractEnvFromArgv argv1 in (env, args, None)))"

definition Parse :: "string \<Rightarrow> runtime_panic + (string list \<times> string list \<times> error option)" where
  "Parse str =
     (case Parse_scan (TrimSpace str) of
        Inl p \<Rightarrow> Inl p
      | Inr st \<Rightarrow> Inr (Parse_finish st))"

section \<open>Basic facts about the scan\<close>

lemma Contains_single: "Contains s [c] = (c \<in> set s)"
  by (induction s) auto

lemma extractEnvFrom_all_assignments:
  "\<forall>s \<in> set rest. Contains s ''='' \<Longrightarrow> extractEnvFrom i rest argv0 = ([], [])"
  by (induction rest arbitrary: i) simp_all

lemma Parse_loop_append:
  "Parse_loop str (xs @ ys) st =
     (case Parse_loop str xs st of Inl p \<Rightarrow> Inl p | Inr st' \<Rightarrow> Parse_loop str ys st')"
  by (induction xs arbitrary: st) (auto split: sum.splits)

lemma makeToken_flags [simp]:
  "inQuotes (makeToken st) = inQuotes st" "inDbl (makeToken st) = inDbl st"
  "escaped (makeToken st) = escaped st" "argv (makeToken st) = argv st"
  by (simp_all add: makeToken_def split: option.split)

lemma makeToken_token:
  "token (makeToken st) = Some (case token st of None \<Rightarrow> [] | Some t \<Rightarrow> t)"
  by (simp add: makeToken_def split: option.split)

lemma addToken_flags [simp]:
  "inQuotes (addToken c st) = inQuotes st" "inDbl (addToken c st) = inDbl st"
  "escaped (addToken c st) = False" "argv (addToken c st) = argv st"
  by (simp_all add: addToken_def Let_def makeToken_def split: option.split)

lemma addToken_token:
  "token (addToken c st) = Some ((case token st of None \<Rightarrow> [] | Some t \<Rightarrow> t) @ [c])"
  by (simp add: addToken_def Let_def makeToken_def split: option.split)

lemma addToken_makeToken: "addToken c (makeToken st) = addToken c st"
  by (simp add: addToken_def Let_def makeToken_def split: option.split)

lemma Parse_step_exclusive:
  assumes "Parse_step str pos char st = Inr st'" and "\<not> (inQuotes st \<and> inDbl st)"
  shows "\<not> (inQuotes st' \<and> inDbl st')"
  using assms
  by (auto simp: Parse_step_def Let_def split: if_splits sum.splits option.splits)

lemma Parse_loop_exclusive:
  assumes "Parse_loop str xs st = Inr st'" and "\<not> (inQuotes st \<and> inDbl st)"
  shows "\<not> (inQuotes st' \<and> inDbl st')"
  using assms
proof (induction xs arbitrary: st)
  case Nil
  then show ?case by simp
next
  case (Cons x xs)
  obtain pos char where x: "x = (pos, char)" by (cases x)
  from Cons.prems(1) obtain st1 where
    s1: "Parse_step str pos char st = Inr st1" and s2: "Parse_loop str xs st1 = Inr st'"
    by (auto simp: x split: sum.splits)
  from s1 Cons.prems(2) have "\<not> (inQuotes st1 \<and> inDbl st1)"
    by (rule Parse_step_exclusive)
  with s2 show ?case by (rule Cons.IH)
qed

section \<open>Facts about the iteration over the string\<close>

lemma rangeFrom_Nil [simp]: "rangeFrom pos [] = []"
  by (subst rangeFrom.simps) simp

lemma rangeFrom_Cons:
  "rangeFrom pos (c # cs) =
     (pos, fst (decoderune (c # cs)))
       # rangeFrom (pos + snd (decoderune (c # cs))) (drop (snd (decoderune (c # cs))) (c # cs))"
  by (subst rangeFrom.simps) (simp add: case_prod_beta)

lemma rangeFrom_bounds:
  "(p, r) \<in> set (rangeFrom pos s) \<Longrightarrow> pos \<le> p \<and> p < pos + length s"
proof (induction pos s arbitrary: p r rule: rangeFrom.induct)
  case (1 pos s)
  show ?case
  proof (cases s)
    case Nil
    with "1.prems" show ?thesis by simp
  next
    case (Cons c cs)
    let ?w = "snd (decoderune s)"
    have w: "0 < ?w" "?w \<le> length s"
      using decoderune_width [of s] decoderune_le_length [of s] Cons by simp_all
    from "1.prems" Cons
    consider "p = pos" | "(p, r) \<in> set (rangeFrom (pos + ?w) (drop ?w s))"
      by (auto simp: rangeFrom_Cons)
    then show ?thesis
    proof cases
      case 1
      then show ?thesis using Cons by simp
    next
      case 2
      have "pos + ?w \<le> p \<and> p < pos + ?w + length (drop ?w s)"
        by (rule "1.IH" [OF _ refl _ 2]) (simp_all add: Cons prod_eq_iff)
      with w show ?thesis by simp
    qed
  qed
qed

lemma rangeFrom_sorted: "sorted_wrt (<) (map fst (rangeFrom pos s))"
proof (induction pos s rule: rangeFrom.induct)
  case (1 pos s)
  show ?case
  proof (cases s)
    case Nil
    then show ?thesis by simp
  next
    case (Cons c cs)
    let ?w = "snd (decoderune s)"
    have w: "0 < ?w" using decoderune_width [of s] by simp
    have tl: "sorted_wrt (<) (map fst (rangeFrom (pos + ?w) (drop ?w s)))"
      by (rule "1.IH" [OF _ refl]) (simp_all add: Cons prod_eq_iff)
    have "\<forall>x \<in> set (rangeFrom (pos + ?w) (drop ?w s)). pos < fst x"
      using rangeFrom_bounds [of _ _ "pos + ?w" "drop ?w s"] w by fastforce
    with tl show ?thesis
      using Cons by (simp add: rangeFrom_Cons)
  qed
qed

lemma rangeFrom_butlast_bound:
  assumes "rangeFrom pos s = xs @ [x]" and "(p, r) \<in> set xs"
  shows "p + 1 < pos + length s"
proof -
  have "sorted_wrt (<) (map fst (xs @ [x]))"
    using rangeFrom_sorted [of pos s] assms(1) by simp
  with assms(2) have "p < fst x"
    by (fastforce simp: sorted_wrt_append)
  moreover have "fst x < pos + length s"
    using rangeFrom_bounds [of "fst x" "snd x" pos s] assms(1) by simp
  ultimately show ?thesis by simp
qed

lemma Parse_step_no_panic:
  "pos + 1 < length str \<Longrightarrow> \<exists>st'. Parse_step str pos char st = Inr st'"
  by (simp add: Parse_step_def Let_def index_def split: option.split)

lemma Parse_loop_no_panic:
  "\<forall>x \<in> set xs. fst x + 1 < length str \<Longrightarrow> \<exists>st'. Parse_loop str xs st = Inr st'"
proof (induction xs arbitrary: st)
  case Nil
  then show ?case by simp
next
  case (Cons x xs)
  obtain pos char where x: "x = (pos, char)" by (cases x)
  from Cons.prems have "pos + 1 < length str" by (simp add: x)
  then obtain st1 where "Parse_step str pos char st = Inr st1"
    using Parse_step_no_panic by blast
  moreover from Cons.prems obtain st' where "Parse_loop str xs st1 = Inr st'"
    using Cons.IH by auto
  ultimately show ?case by (simp add: x)
qed

lemma Parse_loop_butlast_no_panic:
  assumes "rangeStr str = xs @ [x]"
  shows "\<exists>st'. Parse_loop str xs st = Inr st'"
proof (rule Parse_loop_no_panic, rule ballI)
  fix y assume "y \<in> set xs"
  then have "(fst y, snd y) \<in> set xs" by simp
  with assms show "fst y + 1 < length str"
    using rangeFrom_butlast_bound [of 0 str xs x "fst y" "snd y"]
    by (simp add: rangeStr_def)
qed

lemma rangeFrom_ascii:
  "byteval c < 0x80 \<Longrightarrow> rangeFrom pos (c # cs) = (pos, byteval c) # rangeFrom (Suc pos) cs"
  by (simp add: rangeFrom_Cons decoderune_ascii)

lemma rangeFrom_split:
  "rangeFrom p0 s = xs @ (pos, r) # rest \<Longrightarrow>
     p0 \<le> pos \<and> pos < p0 + length s \<and> (pos, r) # rest = rangeFrom pos (drop (pos - p0) s)"
proof (induction xs arbitrary: p0 s)
  case Nil
  then have "s \<noteq> []" by auto
  then obtain c cs where s: "s = c # cs" by (cases s) auto
  from Nil have "pos = p0" by (simp add: s rangeFrom_Cons)
  with Nil show ?case by (simp add: s)
next
  case (Cons x xs)
  then have "s \<noteq> []" by auto
  then obtain c cs where s: "s = c # cs" by (cases s) auto
  let ?w = "snd (decoderune s)"
  have w: "0 < ?w" "?w \<le> length s"
    using decoderune_width [of s] decoderune_le_length [of s] s by simp_all
  from Cons.prems have "rangeFrom (p0 + ?w) (drop ?w s) = xs @ (pos, r) # rest"
    by (simp add: s rangeFrom_Cons)
  from Cons.IH [OF this]
  have "p0 + ?w \<le> pos" "pos < p0 + ?w + length (drop ?w s)"
    "(pos, r) # rest = rangeFrom pos (drop (pos - (p0 + ?w)) (drop ?w s))"
    by simp_all
  moreover from \<open>p0 + ?w \<le> pos\<close> have "pos - (p0 + ?w) + ?w = pos - p0" by simp
  ultimately show ?case using w by simp
qed

lemma rangeStr_backslash_next:
  assumes "rangeStr str = xs @ (pos, 0x5C) # (pos', c) # ys"
  shows "pos' = pos + 1 \<and> pos + 1 < length str \<and> c = fst (decoderune (drop (pos + 1) str))
         \<and> (str ! (pos + 1) = CHR 0x22 \<longleftrightarrow> c = 0x22)
         \<and> (str ! (pos + 1) = CHR 0x5C \<longleftrightarrow> c = 0x5C)"
proof -
  from assms have a: "pos < length str"
    and b: "(pos, 0x5C) # (pos', c) # ys = rangeFrom pos (drop pos str)"
    using rangeFrom_split [of 0 str xs pos "0x5C" "(pos', c) # ys"]
    by (simp_all add: rangeStr_def)
  from a obtain b0 bs where d: "drop pos str = b0 # bs"
    by (cases "drop pos str") auto
  from b have r0: "fst (decoderune (b0 # bs)) = 0x5C"
    by (simp add: d rangeFrom_Cons)
  then have "byteval b0 < 0x80"
    using decoderune_ascii_iff [of b0 bs] by simp
  then have dec: "decoderune (b0 # bs) = (byteval b0, 1)" by (rule decoderune_ascii)
  from b have nxt: "(pos', c) # ys = rangeFrom (pos + 1) bs"
    by (simp add: d rangeFrom_Cons dec)
  then have "bs \<noteq> []" by auto
  then obtain b1 bs' where bs: "bs = b1 # bs'" by (cases bs) auto
  have bs_drop: "drop (pos + 1) str = b1 # bs'"
    using d bs by (metis Suc_eq_plus1 drop_Suc list.sel(3) tl_drop)
  then have len: "pos + 1 < length str" and b1: "str ! (pos + 1) = b1"
    by (metis drop_eq_Nil2 linorder_not_le list.simps(3),
        metis Cons_nth_drop_Suc drop_eq_Nil2 linorder_not_le list.inject list.simps(3))
  from nxt have p': "pos' = pos + 1" and c: "c = fst (decoderune (b1 # bs'))"
    by (simp_all add: bs rangeFrom_Cons)
  have q: "(b1 = CHR 0x22 \<longleftrightarrow> c = 0x22)"
  proof
    assume "b1 = CHR 0x22" then show "c = 0x22" by (simp add: c decoderune_ascii)
  next
    assume "c = 0x22"
    then have "byteval b1 < 0x80" using decoderune_ascii_iff [of b1 bs'] c by simp
    with \<open>c = 0x22\<close> have "byteval b1 = byteval (CHR 0x22)" by (simp add: c decoderune_ascii)
    then show "b1 = CHR 0x22" by (simp only: of_char_eq_iff)
  qed
  have s: "(b1 = CHR 0x5C \<longleftrightarrow> c = 0x5C)"
  proof
    assume "b1 = CHR 0x5C" then show "c = 0x5C" by (simp add: c decoderune_ascii)
  next
    assume "c = 0x5C"
    then have "byteval b1 < 0x80" using decoderune_ascii_iff [of b1 bs'] c by simp
    with \<open>c = 0x5C\<close> have "byteval b1 = byteval (CHR 0x5C)" by (simp add: c decoderune_ascii)
    then show "b1 = CHR 0x5C" by (simp only: of_char_eq_iff)
  qed
  from p' len c q s b1 bs_drop show ?thesis by simp
qed

lemma Parse_step_backslash_unquoted:
  assumes "\<not> escaped st" and "\<not> inQuotes st" and "\<not> inDbl st"
  shows "Parse_step str pos 0x5C st = Inr (st\<lparr>escaped := True\<rparr>)"
  using assms by (simp add: Parse_step_def Let_def)

lemma Parse_tokens_escaped [simp]: "Parse_tokens (st\<lparr>escaped := e\<rparr>) = Parse_tokens st"
  by (simp add: Parse_tokens_def split: option.split)

lemma Parse_finish_escaped [simp]: "Parse_finish (st\<lparr>escaped := e\<rparr>) = Parse_finish st"
  by (simp add: Parse_finish_def)

section \<open>Facts about UTF-8 encoding and decoding\<close>

lemma mod_offset: "x < n \<Longrightarrow> (k * n + x) mod n = (x::nat)"
  by simp

lemma lead2_mod: "x < 32 \<Longrightarrow> (192 + x) mod 32 = (x::nat)"
  using mod_offset [of x 32 6] by simp

lemma cont_mod: "y < 64 \<Longrightarrow> (128 + y) mod 64 = (y::nat)"
  using mod_offset [of y 64 2] by simp

lemma lead3_mod: "x < 16 \<Longrightarrow> (224 + x) mod 16 = (x::nat)"
  using mod_offset [of x 16 14] by simp

lemma lead4_mod: "x < 8 \<Longrightarrow> (240 + x) mod 8 = (x::nat)"
  using mod_offset [of x 8 30] by simp

lemma decoderune_2:
  assumes "byteval c0 = 0xC0 + x" and "x < 0x20" and "byteval c1 = 0x80 + y" and "y < 0x40"
    and "0x7F < x * 0x40 + y"
  shows "decoderune (c0 # c1 # rest) = (x * 0x40 + y, 2)"
  using assms by (simp add: decoderune.simps Let_def continuation_def lead2_mod cont_mod)

lemma decoderune_3:
  assumes "byteval c0 = 0xE0 + x" and "x < 0x10" and "byteval c1 = 0x80 + y" and "y < 0x40"
    and "byteval c2 = 0x80 + z" and "z < 0x40"
    and "0x7FF < x * 0x1000 + y * 0x40 + z"
    and "\<not> (0xD800 \<le> x * 0x1000 + y * 0x40 + z \<and> x * 0x1000 + y * 0x40 + z \<le> 0xDFFF)"
  shows "decoderune (c0 # c1 # c2 # rest) = (x * 0x1000 + y * 0x40 + z, 3)"
  using assms by (simp add: decoderune.simps Let_def continuation_def lead3_mod cont_mod)

lemma decoderune_4:
  assumes "byteval c0 = 0xF0 + x" and "x < 0x08" and "byteval c1 = 0x80 + y" and "y < 0x40"
    and "byteval c2 = 0x80 + z" and "z < 0x40" and "byteval c3 = 0x80 + u" and "u < 0x40"
    and "0xFFFF < x * 0x40000 + y * 0x1000 + z * 0x40 + u"
    and "x * 0x40000 + y * 0x1000 + z * 0x40 + u \<le> 0x10FFFF"
  shows "decoderune (c0 # c1 # c2 # c3 # rest) = (x * 0x40000 + y * 0x1000 + z * 0x40 + u, 4)"
  using assms by (simp add: decoderune.simps Let_def continuation_def lead4_mod cont_mod)

lemma three_byte_sum: "(r::nat) div 4096 * 4096 + (r div 64) mod 64 * 64 + r mod 64 = r"
proof -
  have "(r div 64) div 64 = r div 4096" by (simp add: div_mult2_eq)
  then have "r div 4096 * 64 + (r div 64) mod 64 = r div 64"
    by (metis div_mult_mod_eq)
  then have "(r div 4096 * 64 + (r div 64) mod 64) * 64 + r mod 64 = r"
    by simp
  then show ?thesis by (simp add: algebra_simps)
qed

lemma four_byte_sum:
  "(r::nat) div 262144 * 262144 + (r div 4096) mod 64 * 4096 + (r div 64) mod 64 * 64
     + r mod 64 = r"
proof -
  have "(r div 4096) div 64 = r div 262144" by (simp add: div_mult2_eq)
  then have "r div 262144 * 64 + (r div 4096) mod 64 = r div 4096"
    by (metis div_mult_mod_eq)
  then have "(r div 262144 * 64 + (r div 4096) mod 64) * 4096 + (r div 64) mod 64 * 64 + r mod 64
               = r div 4096 * 4096 + (r div 64) mod 64 * 64 + r mod 64"
    by simp
  then show ?thesis using three_byte_sum [of r] by (simp add: algebra_simps)
qed

lemma decoderune_encoderune:
  assumes "ValidRune r"
  shows "decoderune (encoderune r @ rest) = (r, length (encoderune r))"
proof -
  consider "r < 0x80" | "0x80 \<le> r" "r < 0x800" | "0x800 \<le> r" "r < 0x10000"
    | "0x10000 \<le> r"
    by linarith
  then show ?thesis
  proof cases
    case 1
    then show ?thesis by (simp add: encoderune_def decoderune_ascii)
  next
    case 2
    have e: "encoderune r = [char_of (0xC0 + r div 0x40), char_of (0x80 + r mod 0x40)]"
      using 2 by (simp add: encoderune_def)
    have "decoderune (char_of (0xC0 + r div 0x40) # char_of (0x80 + r mod 0x40) # rest)
            = (r div 0x40 * 0x40 + r mod 0x40, 2)"
      using 2 by (intro decoderune_2) simp_all
    then show ?thesis by (simp add: e)
  next
    case 3
    from assms 3 have ns: "\<not> (0xD800 \<le> r \<and> r \<le> 0xDFFF)"
      by (auto simp: ValidRune_def)
    have e: "encoderune r = [char_of (0xE0 + r div 0x1000),
               char_of (0x80 + (r div 0x40) mod 0x40), char_of (0x80 + r mod 0x40)]"
      using 3 ns by (auto simp: encoderune_def)
    have "decoderune (char_of (0xE0 + r div 0x1000) # char_of (0x80 + (r div 0x40) mod 0x40)
                        # char_of (0x80 + r mod 0x40) # rest)
            = (r div 0x1000 * 0x1000 + (r div 0x40) mod 0x40 * 0x40 + r mod 0x40, 3)"
      using 3 ns by (intro decoderune_3) (simp_all add: three_byte_sum)
    then show ?thesis by (simp add: e three_byte_sum)
  next
    case 4
    from assms 4 have le: "r \<le> 0x10FFFF"
      by (auto simp: ValidRune_def)
    have e: "encoderune r = [char_of (0xF0 + r div 0x40000),
               char_of (0x80 + (r div 0x1000) mod 0x40),
               char_of (0x80 + (r div 0x40) mod 0x40), char_of (0x80 + r mod 0x40)]"
      using 4 le by (auto simp: encoderune_def)
    have "decoderune (char_of (0xF0 + r div 0x40000) # char_of (0x80 + (r div 0x1000) mod 0x40)
                        # char_of (0x80 + (r div 0x40) mod 0x40)
                        # char_of (0x80 + r mod 0x40) # rest)
            = (r div 0x40000 * 0x40000 + (r div 0x1000) mod 0x40 * 0x1000
                 + (r div 0x40) mod 0x40 * 0x40 + r mod 0x40, 4)"
      using 4 le by (intro decoderune_4) (simp_all add: four_byte_sum)
    then show ?thesis by (simp add: e four_byte_sum)
  qed
qed

lemma decoderune_append_start:
  assumes "s \<noteq> []" and "ws = [] \<or> RuneStart (hd ws)"
  shows "decoderune (s @ ws) = decoderune s"
proof (cases ws)
  case Nil
  then show ?thesis by simp
next
  case (Cons w0 ws')
  with assms(2) have nc: "\<not> continuation w0" by (simp add: RuneStart_def)
  from assms(1) obtain c0 rest where s: "s = c0 # rest" by (cases s) auto
  consider "rest = []" | c1 where "rest = [c1]" | c1 c2 where "rest = [c1, c2]"
    | c1 c2 c3 more where "rest = c1 # c2 # c3 # more"
    by (metis list.exhaust)
  then show ?thesis
  proof cases
    case 1
    then show ?thesis
      using nc by (simp add: s Cons decoderune.simps Let_def split: list.split)
  next
    case 2
    then show ?thesis
      using nc by (simp add: s Cons decoderune.simps Let_def split: list.split)
  next
    case 3
    then show ?thesis
      using nc by (simp add: s Cons decoderune.simps Let_def split: list.split)
  next
    case 4
    then show ?thesis
      by (simp add: s Cons decoderune.simps Let_def split: list.split)
  qed
qed

lemma DecodeLastRune_ascii: "byteval c < 0x80 \<Longrightarrow> DecodeLastRune (s @ [c]) = (byteval c, 1)"
  by (simp add: DecodeLastRune_def)

lemma lastRuneStart_stop:
  "lim \<le> start \<Longrightarrow> RuneStart (s ! nat start) \<Longrightarrow> lastRuneStart s lim start = start"
  by (subst lastRuneStart.simps) simp

lemma lastRuneStart_step:
  "lim \<le> start \<Longrightarrow> \<not> RuneStart (s ! nat start) \<Longrightarrow>
     lastRuneStart s lim start = lastRuneStart s lim (start - 1)"
  by (subst lastRuneStart.simps) simp

lemma DecodeLastRune_nonascii:
  assumes "s \<noteq> []" and "0x80 \<le> byteval (last s)"
    and "\<And>lim. lim \<le> int k \<Longrightarrow> lastRuneStart s lim (int (length s) - 2) = int k"
    and "k + 4 \<ge> length s"
    and "decoderune (drop k s) = (r, w)" and "k + w = length s"
  shows "DecodeLastRune s = (r, w)"
proof -
  let ?lim = "if int (length s) - 4 < 0 then 0 else int (length s) - 4"
  have "?lim \<le> int k" using assms(4) by simp
  then have "lastRuneStart s ?lim (int (length s) - 2) = int k" by (rule assms(3))
  then show ?thesis
    unfolding DecodeLastRune_def Let_def using assms(1,2,5,6) by simp
qed

lemma DecodeLastRune_2:
  assumes "RuneStart c0" and "0x80 \<le> byteval c1" and "decoderune [c0, c1] = (r, 2)"
  shows "DecodeLastRune (s @ [c0, c1]) = (r, 2)"
proof (rule DecodeLastRune_nonascii [where k = "length s"])
  fix lim :: int
  let ?t = "s @ [c0, c1]"
  assume l: "lim \<le> int (length s)"
  have a: "?t ! nat (int (length s)) = c0" by (simp add: nth_append)
  have "lastRuneStart ?t lim (int (length s)) = int (length s)"
    using l by (rule lastRuneStart_stop) (simp add: a assms(1))
  then show "lastRuneStart ?t lim (int (length ?t) - 2) = int (length s)" by simp
qed (use assms in simp_all)

lemma DecodeLastRune_3:
  assumes "RuneStart c0" and "continuation c1" and "0x80 \<le> byteval c2"
    and "decoderune [c0, c1, c2] = (r, 3)"
  shows "DecodeLastRune (s @ [c0, c1, c2]) = (r, 3)"
proof (rule DecodeLastRune_nonascii [where k = "length s"])
  fix lim :: int
  let ?t = "s @ [c0, c1, c2]"
  let ?n = "int (length s)"
  assume l: "lim \<le> ?n"
  have a: "?t ! nat ?n = c0" by (simp add: nth_append)
  have b: "?t ! nat (?n + 1) = c1" by (simp add: nth_append nat_add_distrib)
  have "lastRuneStart ?t lim (?n + 1) = lastRuneStart ?t lim (?n + 1 - 1)"
    using l by (intro lastRuneStart_step) (simp_all add: b assms(2) RuneStart_def)
  also have "\<dots> = lastRuneStart ?t lim ?n" by simp
  also have "\<dots> = ?n"
    using l by (rule lastRuneStart_stop) (simp add: a assms(1))
  finally have "lastRuneStart ?t lim (?n + 1) = ?n" .
  moreover have "int (length ?t) - 2 = ?n + 1" by simp
  ultimately show "lastRuneStart ?t lim (int (length ?t) - 2) = ?n" by (simp only:)
qed (use assms in simp_all)

lemma DecodeLastRune_4:
  assumes "RuneStart c0" and "continuation c1" and "continuation c2" and "0x80 \<le> byteval c3"
    and "decoderune [c0, c1, c2, c3] = (r, 4)"
  shows "DecodeLastRune (s @ [c0, c1, c2, c3]) = (r, 4)"
proof (rule DecodeLastRune_nonascii [where k = "length s"])
  fix lim :: int
  let ?t = "s @ [c0, c1, c2, c3]"
  let ?n = "int (length s)"
  assume l: "lim \<le> ?n"
  have a: "?t ! nat ?n = c0" by (simp add: nth_append)
  have b: "?t ! nat (?n + 1) = c1" by (simp add: nth_append nat_add_distrib)
  have c: "?t ! nat (?n + 2) = c2" by (simp add: nth_append nat_add_distrib)
  have e: "?n + 2 - 1 = ?n + 1" "?n + 1 - 1 = ?n" by simp_all
  have "lastRuneStart ?t lim (?n + 2) = lastRuneStart ?t lim (?n + 2 - 1)"
    using l by (intro lastRuneStart_step) (simp_all add: c assms(3) RuneStart_def)
  also have "\<dots> = lastRuneStart ?t lim (?n + 1)" by (simp only: e)
  also have "\<dots> = lastRuneStart ?t lim (?n + 1 - 1)"
    using l by (intro lastRuneStart_step) (simp_all add: b assms(2) RuneStart_def)
  also have "\<dots> = lastRuneStart ?t lim ?n" by (simp only: e)
  also have "\<dots> = ?n"
    using l by (rule lastRuneStart_stop) (simp add: a assms(1))
  finally have "lastRuneStart ?t lim (?n + 2) = ?n" .
  moreover have "int (length ?t) - 2 = ?n + 2" by simp
  ultimately show "lastRuneStart ?t lim (int (length ?t) - 2) = ?n" by (simp only:)
qed (use assms in simp_all)

lemma encoderune_nonempty: "encoderune r \<noteq> []"
  by (simp add: encoderune_def)

lemma RuneStart_lead: "0xC0 \<le> n \<Longrightarrow> n < 0x100 \<Longrightarrow> RuneStart (char_of (n::nat))"
  by (simp add: RuneStart_def continuation_def)

lemma RuneStart_ascii: "byteval c < 0x80 \<Longrightarrow> RuneStart c"
  by (simp add: RuneStart_def continuation_def)

lemma encoderune_hd_RuneStart: "ValidRune r \<Longrightarrow> RuneStart (hd (encoderune r))"
proof -
  assume v: "ValidRune r"
  consider "r < 0x80" | "0x80 \<le> r" "r < 0x800" | "0x800 \<le> r" "r < 0x10000"
    | "0x10000 \<le> r"
    by linarith
  then show ?thesis
  proof cases
    case 1
    then show ?thesis by (simp add: encoderune_def RuneStart_ascii)
  next
    case 2
    then have "hd (encoderune r) = char_of (0xC0 + r div 0x40)" by (simp add: encoderune_def)
    moreover have "RuneStart (char_of (0xC0 + r div 0x40))"
      using 2 by (intro RuneStart_lead) simp_all
    ultimately show ?thesis by simp
  next
    case 3
    with v have "hd (encoderune r) = char_of (0xE0 + r div 0x1000)"
      by (auto simp: encoderune_def ValidRune_def)
    moreover have "RuneStart (char_of (0xE0 + r div 0x1000))"
      using 3 by (intro RuneStart_lead) simp_all
    ultimately show ?thesis by simp
  next
    case 4
    with v have le: "r \<le> 0x10FFFF" by (auto simp: ValidRune_def)
    with 4 have "hd (encoderune r) = char_of (0xF0 + r div 0x40000)"
      by (auto simp: encoderune_def)
    moreover have "RuneStart (char_of (0xF0 + r div 0x40000))"
      using 4 le by (intro RuneStart_lead) simp_all
    ultimately show ?thesis by simp
  qed
qed

lemma DecodeLastRune_encoderune:
  assumes "ValidRune r"
  shows "DecodeLastRune (s @ encoderune r) = (r, length (encoderune r))"
proof -
  note dec = decoderune_encoderune [OF assms, of "[]"]
  consider "r < 0x80" | "0x80 \<le> r" "r < 0x800" | "0x800 \<le> r" "r < 0x10000"
    | "0x10000 \<le> r"
    by linarith
  then show ?thesis
  proof cases
    case 1
    then show ?thesis by (simp add: encoderune_def DecodeLastRune_ascii)
  next
    case 2
    have e: "encoderune r = [char_of (0xC0 + r div 0x40), char_of (0x80 + r mod 0x40)]"
      using 2 by (simp add: encoderune_def)
    have "DecodeLastRune (s @ [char_of (0xC0 + r div 0x40), char_of (0x80 + r mod 0x40)]) = (r, 2)"
    proof (rule DecodeLastRune_2)
      show "RuneStart (char_of (0xC0 + r div 0x40))"
        using 2 by (intro RuneStart_lead) simp_all
      show "decoderune [char_of (0xC0 + r div 0x40), char_of (0x80 + r mod 0x40)] = (r, 2)"
        using dec by (simp add: e)
    qed simp
    then show ?thesis by (simp add: e)
  next
    case 3
    from assms 3 have ns: "\<not> (0xD800 \<le> r \<and> r \<le> 0xDFFF)"
      by (auto simp: ValidRune_def)
    have e: "encoderune r = [char_of (0xE0 + r div 0x1000),
               char_of (0x80 + (r div 0x40) mod 0x40), char_of (0x80 + r mod 0x40)]"
      using 3 ns by (auto simp: encoderune_def)
    have "DecodeLastRune (s @ [char_of (0xE0 + r div 0x1000),
               char_of (0x80 + (r div 0x40) mod 0x40), char_of (0x80 + r mod 0x40)]) = (r, 3)"
    proof (rule DecodeLastRune_3)
      show "RuneStart (char_of (0xE0 + r div 0x1000))"
        using 3 by (intro RuneStart_lead) simp_all
      show "continuation (char_of (0x80 + (r div 0x40) mod 0x40))"
        by (simp add: continuation_def)
      show "decoderune [char_of (0xE0 + r div 0x1000), char_of (0x80 + (r div 0x40) mod 0x40),
               char_of (0x80 + r mod 0x40)] = (r, 3)"
        using dec by (simp add: e)
    qed simp
    then show ?thesis by (simp add: e)
  next
    case 4
    from assms 4 have le: "r \<le> 0x10FFFF"
      by (auto simp: ValidRune_def)
    have e: "encoderune r = [char_of (0xF0 + r div 0x40000),
               char_of (0x80 + (r div 0x1000) mod 0x40),
               char_of (0x80 + (r div 0x40) mod 0x40), char_of (0x80 + r mod 0x40)]"
      using 4 le by (auto simp: encoderune_def)
    have "DecodeLastRune (s @ [char_of (0xF0 + r div 0x40000),
               char_of (0x80 + (r div 0x1000) mod 0x40),
               char_of (0x80 + (r div 0x40) mod 0x40), char_of (0x80 + r mod 0x40)]) = (r, 4)"
    proof (rule DecodeLastRune_4)
      show "RuneStart (char_of (0xF0 + r div 0x40000))"
        using 4 le by (intro RuneStart_lead) simp_all
      show "continuation (char_of (0x80 + (r div 0x1000) mod 0x40))"
        by (simp add: continuation_def)
      show "continuation (char_of (0x80 + (r div 0x40) mod 0x40))"
        by (simp add: continuation_def)
      show "decoderune [char_of (0xF0 + r div 0x40000), char_of (0x80 + (r div 0x1000) mod 0x40),
               char_of (0x80 + (r div 0x40) mod 0x40), char_of (0x80 + r mod 0x40)] = (r, 4)"
        using dec by (simp add: e)
    qed simp
    then show ?thesis by (simp add: e)
  qed
qed

section \<open>Facts about TrimSpace\<close>

lemma asciiSpace_IsSpace: "asciiSpace c \<Longrightarrow> byteval c < 0x80 \<and> IsSpace (byteval c)"
  by (auto simp: asciiSpace_def IsSpace_def)

lemma IsSpace_ValidRune: "IsSpace r \<Longrightarrow> ValidRune r"
  by (auto simp: IsSpace_def ValidRune_def split: if_splits)

lemma TrimLeftSpace_Nil [simp]: "TrimLeftSpace [] = []"
  by (subst TrimLeftSpace.simps) simp

lemma TrimRightSpace_Nil [simp]: "TrimRightSpace [] = []"
  by (subst TrimRightSpace.simps) simp

lemma TrimLeftSpace_nonempty:
  "s \<noteq> [] \<Longrightarrow> TrimLeftSpace s =
     (if IsSpace (fst (decoderune s)) then TrimLeftSpace (drop (snd (decoderune s)) s) else s)"
  by (subst TrimLeftSpace.simps) (simp add: case_prod_beta)

lemma TrimRightSpace_nonempty:
  "s \<noteq> [] \<Longrightarrow> TrimRightSpace s =
     (if IsSpace (fst (DecodeLastRune s))
      then TrimRightSpace (take (length s - snd (DecodeLastRune s)) s) else s)"
  by (subst TrimRightSpace.simps) (simp add: case_prod_beta)

lemma TrimSpace_append_trimmed:
  assumes "q = [] \<or> RuneStart (hd q)" and "TrimLeftSpace q = []"
    and "\<And>t. TrimRightSpace (t @ q) = TrimRightSpace t"
  shows "TrimSpace (s @ q) = TrimSpace s"
  unfolding TrimSpace_def
proof (induction s rule: TrimLeftSpace.induct)
  case (1 s)
  show ?case
  proof (cases "s = []")
    case True
    then show ?thesis using assms(2) by simp
  next
    case False
    let ?r = "fst (decoderune s)" and ?w = "snd (decoderune s)"
    have dec: "decoderune (s @ q) = decoderune s"
      using False assms(1) by (rule decoderune_append_start)
    have w: "?w \<le> length s" using False by (rule decoderune_le_length)
    show ?thesis
    proof (cases "IsSpace ?r")
      case True
      have "TrimRightSpace (TrimLeftSpace (drop ?w s @ q))
              = TrimRightSpace (TrimLeftSpace (drop ?w s))"
        by (rule "1.IH" [OF False _ _ True]) (simp_all add: prod_eq_iff)
      then show ?thesis
        using False True w by (simp add: TrimLeftSpace_nonempty dec)
    next
      case ns: False
      then show ?thesis
        using False by (simp add: TrimLeftSpace_nonempty dec assms(3))
    qed
  qed
qed

lemma TrimLeftSpace_space_rune:
  assumes "IsSpace r"
  shows "TrimLeftSpace (encoderune r @ s) = TrimLeftSpace s"
proof -
  have "decoderune (encoderune r @ s) = (r, length (encoderune r))"
    using assms by (intro decoderune_encoderune IsSpace_ValidRune)
  then show ?thesis
    using assms encoderune_nonempty [of r] by (simp add: TrimLeftSpace_nonempty)
qed

lemma TrimRightSpace_space_rune:
  assumes "IsSpace r"
  shows "TrimRightSpace (s @ encoderune r) = TrimRightSpace s"
proof -
  have "DecodeLastRune (s @ encoderune r) = (r, length (encoderune r))"
    using assms by (intro DecodeLastRune_encoderune IsSpace_ValidRune)
  then show ?thesis
    using assms encoderune_nonempty [of r] by (simp add: TrimRightSpace_nonempty)
qed

lemma TrimLeftSpace_space_runes:
  "\<forall>r \<in> set rs. IsSpace r \<Longrightarrow> TrimLeftSpace (string_of_runes rs @ s) = TrimLeftSpace s"
  by (induction rs) (simp_all add: string_of_runes_def TrimLeftSpace_space_rune)

lemma TrimRightSpace_space_runes:
  "\<forall>r \<in> set rs. IsSpace r \<Longrightarrow> TrimRightSpace (s @ string_of_runes rs) = TrimRightSpace s"
proof (induction rs rule: rev_induct)
  case Nil
  then show ?case by (simp add: string_of_runes_def)
next
  case (snoc r rs)
  have "TrimRightSpace (s @ string_of_runes (rs @ [r]))
          = TrimRightSpace ((s @ string_of_runes rs) @ encoderune r)"
    by (simp add: string_of_runes_def)
  also have "\<dots> = TrimRightSpace (s @ string_of_runes rs)"
  proof (rule TrimRightSpace_space_rune)
    show "IsSpace r" using snoc.prems by simp
  qed
  finally show ?case using snoc by simp
qed

lemma string_of_runes_start:
  "\<forall>r \<in> set rs. IsSpace r \<Longrightarrow> string_of_runes rs = [] \<or> RuneStart (hd (string_of_runes rs))"
  using encoderune_nonempty
  by (cases rs) (simp_all add: string_of_runes_def encoderune_hd_RuneStart IsSpace_ValidRune)

lemma TrimSpace_space_runes:
  assumes "\<forall>r \<in> set rs1. IsSpace r" and "\<forall>r \<in> set rs2. IsSpace r"
  shows "TrimSpace (string_of_runes rs1 @ s @ string_of_runes rs2) = TrimSpace s"
proof -
  have "TrimSpace (string_of_runes rs1 @ s @ string_of_runes rs2)
          = TrimSpace ((string_of_runes rs1 @ s) @ string_of_runes rs2)"
    by simp
  also have "\<dots> = TrimSpace (string_of_runes rs1 @ s)"
  proof (rule TrimSpace_append_trimmed)
    show "string_of_runes rs2 = [] \<or> RuneStart (hd (string_of_runes rs2))"
      using assms(2) by (rule string_of_runes_start)
    show "TrimLeftSpace (string_of_runes rs2) = []"
      using TrimLeftSpace_space_runes [OF assms(2), of "[]"] by simp
    show "\<And>t. TrimRightSpace (t @ string_of_runes rs2) = TrimRightSpace t"
      using assms(2) by (rule TrimRightSpace_space_runes)
  qed
  also have "\<dots> = TrimSpace s"
    using assms(1) by (simp add: TrimSpace_def TrimLeftSpace_space_runes)
  finally show ?thesis .
qed

lemma string_of_runes_ascii:
  "\<forall>c \<in> set ws. byteval c < 0x80 \<Longrightarrow> string_of_runes (map byteval ws) = ws"
  by (induction ws) (simp_all add: string_of_runes_def encoderune_def)

lemma TrimSpace_asciiSpace:
  assumes "\<forall>c \<in> set ws1. asciiSpace c" and "\<forall>c \<in> set ws2. asciiSpace c"
  shows "TrimSpace (ws1 @ s @ ws2) = TrimSpace s"
proof -
  have "string_of_runes (map byteval ws1) = ws1" "string_of_runes (map byteval ws2) = ws2"
    using assms asciiSpace_IsSpace by (simp_all add: string_of_runes_ascii)
  moreover have "TrimSpace (string_of_runes (map byteval ws1) @ s
                   @ string_of_runes (map byteval ws2)) = TrimSpace s"
    using assms asciiSpace_IsSpace by (intro TrimSpace_space_runes) simp_all
  ultimately show ?thesis by simp
qed

lemma TrimSpace_unchanged:
  assumes "s \<noteq> []" and "\<not> IsSpace (fst (decoderune s))"
    and "\<not> IsSpace (fst (DecodeLastRune s))"
  shows "TrimSpace s = s"
  using assms by (simp add: TrimSpace_def TrimLeftSpace_nonempty TrimRightSpace_nonempty)

lemma TrimLeftSpace_all_space:
  "\<forall>x \<in> set (rangeFrom pos s). IsSpace (snd x) \<Longrightarrow> TrimLeftSpace s = []"
proof (induction pos s rule: rangeFrom.induct)
  case (1 pos s)
  show ?case
  proof (cases s)
    case Nil
    then show ?thesis by simp
  next
    case (Cons c cs)
    let ?r = "fst (decoderune s)" and ?w = "snd (decoderune s)"
    from "1.prems" have sp: "IsSpace ?r"
      and rest: "\<forall>x \<in> set (rangeFrom (pos + ?w) (drop ?w s)). IsSpace (snd x)"
      by (simp_all add: Cons rangeFrom_Cons)
    have "TrimLeftSpace (drop ?w s) = []"
      by (rule "1.IH" [OF _ refl _ rest]) (simp_all add: Cons prod_eq_iff)
    with sp show ?thesis by (simp add: TrimLeftSpace_nonempty Cons)
  qed
qed

lemma TrimSpace_all_space:
  "\<forall>x \<in> set (rangeStr s). IsSpace (snd x) \<Longrightarrow> TrimSpace s = []"
  by (simp add: TrimSpace_def rangeStr_def TrimLeftSpace_all_space)

lemma separator_asciiSpace: "c \<in> set separator \<Longrightarrow> asciiSpace c"
  by (auto simp: separator_def asciiSpace_def)

lemma TrimSpace_separators: "set ws \<subseteq> set separator \<Longrightarrow> TrimSpace ws = []"
  using TrimSpace_asciiSpace [of ws "[]" "[]"] separator_asciiSpace
  by (auto simp: TrimSpace_def)

section \<open>Facts about single steps and about panics\<close>

lemma rangeStr_separator: "rangeStr separator = [(0, 0x20), (1, 0x09), (2, 0x0A), (3, 0x0D)]"
  by code_simp

lemma ContainsRune_separator:
  "ContainsRune separator r \<longleftrightarrow> r = 0x20 \<or> r = 0x09 \<or> r = 0x0A \<or> r = 0x0D"
  by (auto simp: ContainsRune_def rangeStr_separator)

lemma Parse_step_ordinary:
  assumes "char \<noteq> 0x5C" and "char \<noteq> 0x22" and "char \<noteq> 0x27"
    and "\<not> ContainsRune separator char"
  shows "Parse_step str pos char st = Inr (addToken char st)"
  using assms by (simp add: Parse_step_def)

lemma Parse_step_escaped:
  "escaped st \<Longrightarrow> Parse_step str pos char st = Inr (addToken char st)"
  by (simp add: Parse_step_def)

lemma Parse_scan_Nil: "Parse_scan [] = Inr init_state"
  by (simp add: Parse_scan_def rangeStr_def)

lemma Parse_tokens_init: "Parse_tokens init_state = ['''']"
  by (simp add: Parse_tokens_def init_state_def)

lemma Parse_step_panic:
  assumes "Parse_step str pos char st = Inl p"
  shows "char = 0x5C \<and> \<not> escaped st \<and> \<not> inQuotes st \<and> inDbl st \<and> length str \<le> pos + 1"
  using assms
  by (auto simp: Parse_step_def Let_def index_def split: if_splits option.splits)

lemma Parse_scan_panic:
  assumes "Parse_scan str = Inl p"
  shows "\<exists>xs pos st. rangeStr str = xs @ [(pos, 0x5C)]
           \<and> Parse_loop str xs init_state = Inr st
           \<and> inDbl st \<and> \<not> inQuotes st \<and> \<not> escaped st"
proof (cases "rangeStr str" rule: rev_cases)
  case Nil
  with assms show ?thesis by (simp add: Parse_scan_def)
next
  case (snoc xs x)
  obtain pos char where x: "x = (pos, char)" by (cases x)
  from snoc obtain st where st: "Parse_loop str xs init_state = Inr st"
    using Parse_loop_butlast_no_panic by blast
  with assms snoc have "Parse_step str pos char st = Inl p"
    by (simp add: Parse_scan_def Parse_loop_append x split: sum.splits)
  from Parse_step_panic [OF this] snoc st show ?thesis
    by (simp add: x)
qed

lemma rangeFrom_eq_Nil: "rangeFrom pos s = [] \<longleftrightarrow> s = []"
  by (cases s) (simp_all add: rangeFrom_Cons)

lemma rangeStr_last_backslash:
  assumes "rangeStr str = xs @ [(pos, 0x5C)]"
  shows "length str = pos + 1"
proof -
  from assms have a: "pos < length str"
    and b: "[(pos, 0x5C)] = rangeFrom pos (drop pos str)"
    using rangeFrom_split [of 0 str xs pos "0x5C" "[]"]
    by (simp_all add: rangeStr_def)
  from a obtain b0 bs where d: "drop pos str = b0 # bs"
    by (cases "drop pos str") auto
  from b have "fst (decoderune (b0 # bs)) = 0x5C"
    by (simp add: d rangeFrom_Cons)
  then have "byteval b0 < 0x80"
    using decoderune_ascii_iff [of b0 bs] by simp
  then have "decoderune (b0 # bs) = (byteval b0, 1)" by (rule decoderune_ascii)
  with b have "rangeFrom (pos + 1) bs = []"
    by (simp add: d rangeFrom_Cons)
  then have "bs = []" by (simp add: rangeFrom_eq_Nil)
  with d have "length (drop pos str) = 1" by simp
  with a show ?thesis by simp
qed

lemma Parse_scan_panics_at_last_backslash:
  assumes "rangeStr str = xs @ [(pos, 0x5C)]"
    and "Parse_loop str xs init_state = Inr st"
    and "inDbl st" and "\<not> inQuotes st" and "\<not> escaped st"
  shows "Parse_scan str = Inl IndexOutOfRange"
proof -
  have "length str = pos + 1" using assms(1) by (rule rangeStr_last_backslash)
  then have "Parse_step str pos 0x5C st = Inl IndexOutOfRange"
    using assms(3-5) by (simp add: Parse_step_def Let_def index_def)
  then show ?thesis
    using assms(1,2) by (simp add: Parse_scan_def Parse_loop_append)
qed

section \<open>The env/argv split\<close>

text \<open>
  C3: for every non-empty token sequence in which every token contains the character
  \<open>=\<close>, \<^verbatim>\<open>extractEnvFromArgv\<close> returns two empty sequences: the loop finds no token
  without \<open>=\<close>, and the plain \<^verbatim>\<open>return\<close> after it gives the nil results, so the
  assignment-looking tokens themselves are dropped.
\<close>

theorem extractEnvFromArgv_only_assignments:
  assumes "toks \<noteq> []" and "\<forall>s \<in> set toks. CHR ''='' \<in> set s"
  shows "extractEnvFromArgv toks = ([], [])"
proof -
  from assms(2) have "\<forall>s \<in> set toks. Contains s ''=''"
    by (simp add: Contains_single)
  then show ?thesis
    unfolding extractEnvFromArgv_def by (rule extractEnvFrom_all_assignments)
qed

theorem extractEnvFromArgv_only_assignments_witness:
  "extractEnvFromArgv [''A=1'', ''B=2''] = ([], [])"
  using extractEnvFromArgv_only_assignments [of "[''A=1'', ''B=2'']"] by simp

text \<open>
  C1: the claim that a successful \<^verbatim>\<open>Parse\<close> always returns a non-empty argv (which
  the doc comment of \<^verbatim>\<open>Parse\<close> promises, too) fails on the code: on the input
  \<^verbatim>\<open>A=1 B=2\<close> both tokens contain \<open>=\<close>, and \<^verbatim>\<open>Parse\<close> returns no error, an empty
  env and an empty argv.
\<close>

theorem Parse_only_assignments_argv_empty:
  "Parse ''A=1 B=2'' = Inr ([], [], None)"
  by code_simp

section \<open>Backslashes inside quotes\<close>

text \<open>
  C2: the claim that a backslash which ends the trimmed input inside double quotes is
  appended, and that the scan never reads past the end, fails on the code: the guard
  \<^verbatim>\<open>len(str) > pos\<close> holds for every index of the iteration, so at the last byte the
  lookahead \<^verbatim>\<open>str[pos+1]\<close> is out of range and the run panics. The input is the double
  quote, the letter a and the backslash. (Lemma \<open>Parse_scan_panics_at_last_backslash\<close>
  shows the same for every string that ends so, and \<open>Parse_scan_panic\<close> that the scan
  panics in no other way.)
\<close>

theorem Parse_dquote_trailing_backslash_panics:
  "Parse [CHR 0x22, CHR ''a'', CHR 0x5C] = Inl IndexOutOfRange"
  by code_simp

text \<open>
  C4, as stated, fails on the code: on the four characters single quote, a, backslash,
  single quote, the second single quote closes the region, and \<^verbatim>\<open>Parse\<close> succeeds
  with the one token made of a and the backslash.
\<close>

theorem Parse_squote_backslash_squote_succeeds:
  "Parse [CHR 0x27, CHR ''a'', CHR 0x5C, CHR 0x27] = Inr ([], [[CHR ''a'', CHR 0x5C]], None)"
  by code_simp

text \<open>
  C4, amended: inside single quotes, an unescaped backslash is appended literally to the
  token, and \<^verbatim>\<open>addToken\<close> clears \<open>escaped\<close> again, so the flag is false for the next
  character; a single quote that follows the backslash immediately therefore closes the
  single-quote region and adds nothing to the token. Parsing the four characters single
  quote, a, backslash, single quote succeeds with env empty and the one-element argv
  holding a and the backslash.
\<close>

theorem single_quote_backslash_is_literal:
  "(inQuotes st \<and> \<not> inDbl st \<and> \<not> escaped st \<longrightarrow>
      (\<exists>st1 st2.
         Parse_step str pos 0x5C st = Inr st1
         \<and> token st1 = Some ((case token st of None \<Rightarrow> [] | Some t \<Rightarrow> t) @ [0x5C])
         \<and> \<not> escaped st1 \<and> inQuotes st1 \<and> \<not> inDbl st1
         \<and> Parse_step str pos' 0x27 st1 = Inr st2
         \<and> \<not> inQuotes st2 \<and> \<not> inDbl st2 \<and> \<not> escaped st2 \<and> token st2 = token st1))
   \<and> Parse [CHR 0x27, CHR ''a'', CHR 0x5C, CHR 0x27] = Inr ([], [[CHR ''a'', CHR 0x5C]], None)"
proof (intro conjI impI)
  assume a: "inQuotes st \<and> \<not> inDbl st \<and> \<not> escaped st"
  let ?st1 = "addToken 0x5C (st\<lparr>escaped := True\<rparr>)"
  let ?st2 = "(makeToken ?st1)\<lparr>inQuotes := False\<rparr>"
  have 1: "Parse_step str pos 0x5C st = Inr ?st1"
    using a by (simp add: Parse_step_def Let_def)
  have 2: "token ?st1 = Some ((case token st of None \<Rightarrow> [] | Some t \<Rightarrow> t) @ [0x5C])"
    by (simp add: addToken_token)
  have 3: "\<not> escaped ?st1 \<and> inQuotes ?st1 \<and> \<not> inDbl ?st1"
    using a by simp
  have 4: "Parse_step str pos' 0x27 ?st1 = Inr ?st2"
    using a by (simp add: Parse_step_def Let_def)
  have 5: "\<not> inQuotes ?st2 \<and> \<not> inDbl ?st2 \<and> \<not> escaped ?st2"
    using a by simp
  have 6: "token ?st2 = token ?st1"
    by (simp add: makeToken_token addToken_token)
  from 1 2 3 4 5 6
  show "\<exists>st1 st2.
         Parse_step str pos 0x5C st = Inr st1
         \<and> token st1 = Some ((case token st of None \<Rightarrow> [] | Some t \<Rightarrow> t) @ [0x5C])
         \<and> \<not> escaped st1 \<and> inQuotes st1 \<and> \<not> inDbl st1
         \<and> Parse_step str pos' 0x27 st1 = Inr st2
         \<and> \<not> inQuotes st2 \<and> \<not> inDbl st2 \<and> \<not> escaped st2 \<and> token st2 = token st1"
    by blast
next
  show "Parse [CHR 0x27, CHR ''a'', CHR 0x5C, CHR 0x27]
          = Inr ([], [[CHR ''a'', CHR 0x5C]], None)"
    by code_simp
qed

theorem single_quote_backslash_is_literal_witness:
  "\<exists>st1 st2.
     Parse_step ''x'' 2 0x5C (init_state\<lparr>inQuotes := True, token := Some [0x61]\<rparr>) = Inr st1
     \<and> token st1 = Some [0x61, 0x5C] \<and> \<not> escaped st1
     \<and> Parse_step ''x'' 3 0x27 st1 = Inr st2 \<and> \<not> inQuotes st2 \<and> token st2 = token st1"
proof -
  let ?st = "init_state\<lparr>inQuotes := True, token := Some [0x61]\<rparr>"
  have h: "inQuotes ?st \<and> \<not> inDbl ?st \<and> \<not> escaped ?st"
    by (simp add: init_state_def)
  have t: "(case token ?st of None \<Rightarrow> [] | Some t \<Rightarrow> t) @ [0x5C] = [0x61, 0x5C]"
    by simp
  from single_quote_backslash_is_literal
         [where str = "''x''" and pos = 2 and pos' = 3, THEN conjunct1, THEN mp, OF h]
  obtain st1 st2 where
    "Parse_step ''x'' 2 0x5C ?st = Inr st1"
    "token st1 = Some ((case token ?st of None \<Rightarrow> [] | Some t \<Rightarrow> t) @ [0x5C])"
    "\<not> escaped st1"
    "Parse_step ''x'' 3 0x27 st1 = Inr st2" "\<not> inQuotes st2" "token st2 = token st1"
    by blast
  then show ?thesis unfolding t by blast
qed

text \<open>
  Where a character follows: inside double quotes (\<open>inDbl\<close> set, \<open>inQuotes\<close> and
  \<open>escaped\<close> not), an unescaped backslash that is followed in the string by the
  character \<open>c\<close> is consumed silently (the token stays as it is and \<open>escaped\<close> is set) exactly when
  \<open>c\<close> is a double quote or a backslash, and is appended literally otherwise; the
  byte that the code looks at, \<^verbatim>\<open>str[pos+1]\<close>, is a double quote or a backslash exactly
  when the next character of the iteration is. After a consumed backslash the following
  double quote or backslash is appended as a literal character. The six characters
  double quote, a, backslash, double quote, b, double quote give the single token
  a, double quote, b.
\<close>

theorem backslash_in_double_quotes:
  "(rangeStr str = xs @ (pos, 0x5C) # (pos', c) # ys
      \<and> inDbl st \<and> \<not> inQuotes st \<and> \<not> escaped st \<longrightarrow>
      (str ! (pos + 1) = CHR 0x22 \<or> str ! (pos + 1) = CHR 0x5C \<longleftrightarrow> c = 0x22 \<or> c = 0x5C)
      \<and> (\<exists>st1. Parse_step str pos 0x5C st = Inr st1 \<and> inDbl st1 \<and> \<not> inQuotes st1
            \<and> (if c = 0x22 \<or> c = 0x5C
                then token st1 = token st \<and> escaped st1
                     \<and> (\<exists>st2. Parse_step str pos' c st1 = Inr st2 \<and> inDbl st2 \<and> \<not> escaped st2
                           \<and> token st2
                               = Some ((case token st of None \<Rightarrow> [] | Some t \<Rightarrow> t) @ [c]))
                else token st1 = Some ((case token st of None \<Rightarrow> [] | Some t \<Rightarrow> t) @ [0x5C])
                     \<and> \<not> escaped st1)))
   \<and> (\<exists>S. Parse_scan (TrimSpace [CHR 0x22, CHR ''a'', CHR 0x5C, CHR 0x22, CHR ''b'', CHR 0x22])
              = Inr S
         \<and> \<not> inQuotes S \<and> \<not> inDbl S
         \<and> Parse_tokens S = [[CHR ''a'', CHR 0x22, CHR ''b'']])"
proof (intro conjI impI)
  assume a: "rangeStr str = xs @ (pos, 0x5C) # (pos', c) # ys
      \<and> inDbl st \<and> \<not> inQuotes st \<and> \<not> escaped st"
  then have assms: "rangeStr str = xs @ (pos, 0x5C) # (pos', c) # ys"
    "inDbl st" "\<not> inQuotes st" "\<not> escaped st"
    by simp_all
  from rangeStr_backslash_next [OF assms(1)]
  have len: "pos + 1 < length str"
    and q: "str ! (pos + 1) = CHR 0x22 \<longleftrightarrow> c = 0x22"
    and b: "str ! (pos + 1) = CHR 0x5C \<longleftrightarrow> c = 0x5C"
    by simp_all
  let ?e = "st\<lparr>escaped := True\<rparr>"
  have step: "Parse_step str pos 0x5C st
                = Inr (if c = 0x22 \<or> c = 0x5C then ?e else addToken 0x5C ?e)"
    using assms(2-4) len q b by (simp add: Parse_step_def Let_def index_def)
  have nxt: "Parse_step str pos' c ?e = Inr (addToken c ?e)"
    by (rule Parse_step_escaped) simp
  show "str ! (pos + 1) = CHR 0x22 \<or> str ! (pos + 1) = CHR 0x5C \<longleftrightarrow> c = 0x22 \<or> c = 0x5C"
    using q b by simp
  show "\<exists>st1. Parse_step str pos 0x5C st = Inr st1 \<and> inDbl st1 \<and> \<not> inQuotes st1
          \<and> (if c = 0x22 \<or> c = 0x5C
              then token st1 = token st \<and> escaped st1
                   \<and> (\<exists>st2. Parse_step str pos' c st1 = Inr st2 \<and> inDbl st2 \<and> \<not> escaped st2
                         \<and> token st2
                             = Some ((case token st of None \<Rightarrow> [] | Some t \<Rightarrow> t) @ [c]))
              else token st1 = Some ((case token st of None \<Rightarrow> [] | Some t \<Rightarrow> t) @ [0x5C])
                   \<and> \<not> escaped st1)"
  proof (cases "c = 0x22 \<or> c = 0x5C")
    case True
    with step have "Parse_step str pos 0x5C st = Inr ?e" by simp
    moreover have "token (addToken c ?e)
                     = Some ((case token st of None \<Rightarrow> [] | Some t \<Rightarrow> t) @ [c])"
      by (simp add: addToken_token)
    ultimately show ?thesis
      using True assms(2,3) nxt by simp
  next
    case False
    with step have "Parse_step str pos 0x5C st = Inr (addToken 0x5C ?e)" by simp
    moreover have "token (addToken 0x5C ?e)
                     = Some ((case token st of None \<Rightarrow> [] | Some t \<Rightarrow> t) @ [0x5C])"
      by (simp add: addToken_token)
    ultimately show ?thesis
      using False assms(2,3) by simp
  qed
next
  let ?S = "\<lparr>token = Some [0x61, 0x22, 0x62], inQuotes = False, inDbl = False,
             escaped = False, argv = []\<rparr>"
  have "Parse_scan (TrimSpace [CHR 0x22, CHR ''a'', CHR 0x5C, CHR 0x22, CHR ''b'', CHR 0x22])
          = Inr ?S \<and> Parse_tokens ?S = [[CHR ''a'', CHR 0x22, CHR ''b'']]"
    by code_simp
  then show "\<exists>S. Parse_scan (TrimSpace [CHR 0x22, CHR ''a'', CHR 0x5C, CHR 0x22, CHR ''b'',
                        CHR 0x22]) = Inr S
          \<and> \<not> inQuotes S \<and> \<not> inDbl S
          \<and> Parse_tokens S = [[CHR ''a'', CHR 0x22, CHR ''b'']]"
    by simp
qed

theorem backslash_in_double_quotes_witness:
  "\<exists>st1. Parse_step [CHR 0x22, CHR 0x5C, CHR ''n'', CHR 0x22] 1 0x5C
            \<lparr>token = Some [], inQuotes = False, inDbl = True, escaped = False, argv = []\<rparr>
          = Inr st1 \<and> token st1 = Some [0x5C] \<and> \<not> escaped st1"
proof -
  let ?str = "[CHR 0x22, CHR 0x5C, CHR ''n'', CHR 0x22]"
  let ?st = "\<lparr>token = Some [], inQuotes = False, inDbl = True, escaped = False, argv = []\<rparr>"
  have r: "rangeStr ?str = [(0, 0x22)] @ (1, 0x5C) # (2, 0x6E) # [(3, 0x22)]"
    by code_simp
  have f: "inDbl ?st \<and> \<not> inQuotes ?st \<and> \<not> escaped ?st" by simp
  from backslash_in_double_quotes
         [THEN conjunct1, THEN mp, OF conjI [OF r f], THEN conjunct2]
  obtain st1 where "Parse_step ?str 1 0x5C ?st = Inr st1"
    and "if (0x6E::nat) = 0x22 \<or> (0x6E::nat) = 0x5C
         then token st1 = token ?st \<and> escaped st1
              \<and> (\<exists>st2. Parse_step ?str 2 0x6E st1 = Inr st2 \<and> inDbl st2 \<and> \<not> escaped st2
                    \<and> token st2
                        = Some ((case token ?st of None \<Rightarrow> [] | Some t \<Rightarrow> t) @ [0x6E]))
         else token st1 = Some ((case token ?st of None \<Rightarrow> [] | Some t \<Rightarrow> t) @ [0x5C])
              \<and> \<not> escaped st1"
    by blast
  then show ?thesis by simp
qed

text \<open>
  C9: the claim that inside double quotes an unescaped backslash is consumed when a
  double quote or a backslash follows it, and is appended literally otherwise, fails on
  the code where no character follows: the backslash is then neither consumed nor
  appended, because the lookahead \<^verbatim>\<open>str[pos+1]\<close> behind the guard \<^verbatim>\<open>len(str) > pos\<close>
  is out of range and the run panics (the slip of C2). In the state that the scan of
  double quote, a reaches, the step on the final backslash panics; so does \<^verbatim>\<open>Parse\<close>
  on double quote, a, backslash, space, where the caller's string has a character after
  the backslash, which the trimming removes before the scan.
\<close>

theorem Parse_step_dquote_backslash_at_end_panics:
  "Parse_loop [CHR 0x22, CHR ''a'', CHR 0x5C] (take 2 (rangeStr [CHR 0x22, CHR ''a'', CHR 0x5C]))
     init_state
     = Inr \<lparr>token = Some [0x61], inQuotes = False, inDbl = True, escaped = False, argv = []\<rparr>
   \<and> Parse_step [CHR 0x22, CHR ''a'', CHR 0x5C] 2 0x5C
        \<lparr>token = Some [0x61], inQuotes = False, inDbl = True, escaped = False, argv = []\<rparr>
     = Inl IndexOutOfRange
   \<and> Parse [CHR 0x22, CHR ''a'', CHR 0x5C, CHR '' ''] = Inl IndexOutOfRange"
  by code_simp

text \<open>
  C10: when the last character of the trimmed input is a backslash that the scan meets
  unescaped and outside any quote region (the state \<open>st\<close> before it has none of the
  three flags set), \<^verbatim>\<open>Parse\<close> succeeds, and its result is the split of the tokens of
  \<open>st\<close>, the state before the backslash: the backslash is in no output token. The scan
  of the characters before the last one always reaches such a state \<open>st\<close>. The two
  characters a, backslash give env empty and argv \<open>[a]\<close>.
\<close>

theorem trailing_backslash_unquoted:
  "(rangeStr (TrimSpace str) = xs @ [(pos, 0x5C)] \<longrightarrow>
      (\<exists>st. Parse_loop (TrimSpace str) xs init_state = Inr st
         \<and> (\<not> escaped st \<and> \<not> inQuotes st \<and> \<not> inDbl st \<longrightarrow>
              Parse str = Inr (fst (extractEnvFromArgv (Parse_tokens st)),
                               snd (extractEnvFromArgv (Parse_tokens st)), None))))
   \<and> Parse [CHR ''a'', CHR 0x5C] = Inr ([], [''a''], None)"
proof (intro conjI impI)
  assume r: "rangeStr (TrimSpace str) = xs @ [(pos, 0x5C)]"
  then obtain st where st: "Parse_loop (TrimSpace str) xs init_state = Inr st"
    using Parse_loop_butlast_no_panic by blast
  have "Parse str = Inr (fst (extractEnvFromArgv (Parse_tokens st)),
                         snd (extractEnvFromArgv (Parse_tokens st)), None)"
    if f: "\<not> escaped st" "\<not> inQuotes st" "\<not> inDbl st"
  proof -
    have "Parse_scan (TrimSpace str) = Inr (st\<lparr>escaped := True\<rparr>)"
      using st Parse_step_backslash_unquoted [OF f]
      by (simp add: Parse_scan_def r Parse_loop_append)
    then show ?thesis
      using f by (simp add: Parse_def Parse_finish_def Let_def case_prod_beta)
  qed
  with st show "\<exists>st. Parse_loop (TrimSpace str) xs init_state = Inr st
         \<and> (\<not> escaped st \<and> \<not> inQuotes st \<and> \<not> inDbl st \<longrightarrow>
              Parse str = Inr (fst (extractEnvFromArgv (Parse_tokens st)),
                               snd (extractEnvFromArgv (Parse_tokens st)), None))"
    by blast
next
  show "Parse [CHR ''a'', CHR 0x5C] = Inr ([], [''a''], None)"
    by code_simp
qed

theorem trailing_backslash_unquoted_witness:
  "Parse [CHR ''l'', CHR ''s'', CHR '' '', CHR 0x5C, CHR '' ''] = Inr ([], [''ls'', ''''], None)"
proof -
  let ?in = "[CHR ''l'', CHR ''s'', CHR '' '', CHR 0x5C, CHR '' '']"
  let ?S = "\<lparr>token = None, inQuotes = False, inDbl = False, escaped = False, argv = [''ls'']\<rparr>"
  have r: "rangeStr (TrimSpace ?in) = [(0, 0x6C), (1, 0x73), (2, 0x20)] @ [(3, 0x5C)]"
    by code_simp
  have l: "Parse_loop (TrimSpace ?in) [(0, 0x6C), (1, 0x73), (2, 0x20)] init_state = Inr ?S"
    by code_simp
  have e: "extractEnvFromArgv (Parse_tokens ?S) = ([], [''ls'', ''''])"
    by code_simp
  from trailing_backslash_unquoted [THEN conjunct1, THEN mp, OF r] l
  have "Parse ?in = Inr (fst (extractEnvFromArgv (Parse_tokens ?S)),
                         snd (extractEnvFromArgv (Parse_tokens ?S)), None)"
    by auto
  then show ?thesis unfolding e by simp
qed

section \<open>The quote modes\<close>

text \<open>
  C8: at every point of the scan of any input (after any number \<open>n\<close> of iterations of
  the loop over the trimmed string \<open>str\<close>), at most one of \<open>inQuotes\<close> and \<open>inDbl\<close>
  is true. An unescaped double quote met inside single quotes, and an unescaped single
  quote met inside double quotes, is appended to the token as a literal character and
  leaves both modes as they are.
\<close>

theorem quote_modes_exclusive:
  "(Parse_loop str (take n (rangeStr str)) init_state = Inr st
      \<longrightarrow> \<not> (inQuotes st \<and> inDbl st))
   \<and> (\<not> escaped st0 \<and> inQuotes st0 \<longrightarrow>
        (\<exists>st1. Parse_step str pos 0x22 st0 = Inr st1
           \<and> token st1 = Some ((case token st0 of None \<Rightarrow> [] | Some t \<Rightarrow> t) @ [0x22])
           \<and> inQuotes st1 = inQuotes st0 \<and> inDbl st1 = inDbl st0))
   \<and> (\<not> escaped st0 \<and> inDbl st0 \<longrightarrow>
        (\<exists>st1. Parse_step str pos 0x27 st0 = Inr st1
           \<and> token st1 = Some ((case token st0 of None \<Rightarrow> [] | Some t \<Rightarrow> t) @ [0x27])
           \<and> inQuotes st1 = inQuotes st0 \<and> inDbl st1 = inDbl st0))"
proof (intro conjI impI)
  assume "Parse_loop str (take n (rangeStr str)) init_state = Inr st"
  moreover have "\<not> (inQuotes init_state \<and> inDbl init_state)"
    by (simp add: init_state_def)
  ultimately show "\<not> (inQuotes st \<and> inDbl st)"
    by (rule Parse_loop_exclusive)
next
  assume a: "\<not> escaped st0 \<and> inQuotes st0"
  then have "Parse_step str pos 0x22 st0 = Inr (addToken 0x22 st0)"
    by (simp add: Parse_step_def Let_def addToken_makeToken)
  then show "\<exists>st1. Parse_step str pos 0x22 st0 = Inr st1
           \<and> token st1 = Some ((case token st0 of None \<Rightarrow> [] | Some t \<Rightarrow> t) @ [0x22])
           \<and> inQuotes st1 = inQuotes st0 \<and> inDbl st1 = inDbl st0"
    by (simp add: addToken_token)
next
  assume a: "\<not> escaped st0 \<and> inDbl st0"
  then have "Parse_step str pos 0x27 st0 = Inr (addToken 0x27 st0)"
    by (simp add: Parse_step_def Let_def addToken_makeToken)
  then show "\<exists>st1. Parse_step str pos 0x27 st0 = Inr st1
           \<and> token st1 = Some ((case token st0 of None \<Rightarrow> [] | Some t \<Rightarrow> t) @ [0x27])
           \<and> inQuotes st1 = inQuotes st0 \<and> inDbl st1 = inDbl st0"
    by (simp add: addToken_token)
qed

theorem quote_modes_exclusive_witness:
  "Parse_loop [CHR 0x27, CHR 0x22] (take 2 (rangeStr [CHR 0x27, CHR 0x22])) init_state
     = Inr \<lparr>token = Some [0x22], inQuotes = True, inDbl = False, escaped = False, argv = []\<rparr>
   \<and> \<not> (inQuotes \<lparr>token = Some [0x22], inQuotes = True, inDbl = False, escaped = False,
                    argv = []\<rparr>
          \<and> inDbl \<lparr>token = Some [0x22], inQuotes = True, inDbl = False, escaped = False,
                    argv = []\<rparr>)
   \<and> (\<exists>st1. Parse_step [CHR 0x27, CHR 0x22] 1 0x22
                \<lparr>token = Some [], inQuotes = True, inDbl = False, escaped = False, argv = []\<rparr>
              = Inr st1
          \<and> token st1 = Some [0x22] \<and> inQuotes st1 \<and> \<not> inDbl st1)
   \<and> (\<exists>st1. Parse_step [CHR 0x22, CHR 0x27] 1 0x27
                \<lparr>token = Some [], inQuotes = False, inDbl = True, escaped = False, argv = []\<rparr>
              = Inr st1
          \<and> token st1 = Some [0x27] \<and> \<not> inQuotes st1 \<and> inDbl st1)"
proof -
  let ?S = "\<lparr>token = Some [0x22], inQuotes = True, inDbl = False, escaped = False, argv = []\<rparr>"
  let ?Q = "\<lparr>token = Some [], inQuotes = True, inDbl = False, escaped = False, argv = []\<rparr>"
  let ?D = "\<lparr>token = Some [], inQuotes = False, inDbl = True, escaped = False, argv = []\<rparr>"
  have e: "Parse_loop [CHR 0x27, CHR 0x22] (take 2 (rangeStr [CHR 0x27, CHR 0x22])) init_state
             = Inr ?S"
    by code_simp
  note a = quote_modes_exclusive [THEN conjunct1, THEN mp, OF e]
  have q: "\<not> escaped ?Q \<and> inQuotes ?Q" by simp
  from quote_modes_exclusive
         [where str = "[CHR 0x27, CHR 0x22]" and pos = 1,
          THEN conjunct2, THEN conjunct1, THEN mp, OF q]
  have b: "\<exists>st1. Parse_step [CHR 0x27, CHR 0x22] 1 0x22 ?Q = Inr st1
          \<and> token st1 = Some [0x22] \<and> inQuotes st1 \<and> \<not> inDbl st1"
    by simp
  have d: "\<not> escaped ?D \<and> inDbl ?D" by simp
  from quote_modes_exclusive
         [where str = "[CHR 0x22, CHR 0x27]" and pos = 1,
          THEN conjunct2, THEN conjunct2, THEN mp, OF d]
  have c: "\<exists>st1. Parse_step [CHR 0x22, CHR 0x27] 1 0x27 ?D = Inr st1
          \<and> token st1 = Some [0x27] \<and> \<not> inQuotes st1 \<and> inDbl st1"
    by simp
  from e a b c show ?thesis by (intro conjI)
qed

section \<open>Trimming, the token list and the error\<close>

text \<open>
  C5, as stated, fails on the code: a leading vertical tab and a trailing form feed are
  trimmed, not scanned; the input vertical tab, l, s, form feed gives the argv
  \<open>[ls]\<close>.
\<close>

theorem Parse_trims_vertical_tab_form_feed:
  "TrimSpace [CHR 0x0B, CHR ''l'', CHR ''s'', CHR 0x0C] = ''ls''
   \<and> Parse [CHR 0x0B, CHR ''l'', CHR ''s'', CHR 0x0C] = Inr ([], [''ls''], None)"
  by code_simp

text \<open>
  C5, amended: \<^verbatim>\<open>Parse\<close> first trims the leading and trailing white space as Unicode
  defines it (\<^verbatim>\<open>strings.TrimSpace\<close>), a set larger than space, tab, newline and
  carriage return: leading and trailing vertical tabs and form feeds are trimmed as
  well (the six white-space bytes of ASCII, and the UTF-8 encodings of all code points
  with \<^verbatim>\<open>unicode.IsSpace\<close>). An input that begins and ends with a character that is
  no Unicode white space is scanned as it is. Inside the trimmed input a vertical tab or
  a form feed is no separator: it is appended to the current token as an ordinary
  character.
\<close>

theorem Parse_trims_unicode_space:
  "((\<forall>c \<in> set ws1 \<union> set ws2. asciiSpace c) \<longrightarrow> Parse (ws1 @ s @ ws2) = Parse s)
   \<and> ((\<forall>r \<in> set rs1 \<union> set rs2. IsSpace r) \<longrightarrow>
        Parse (string_of_runes rs1 @ s @ string_of_runes rs2) = Parse s)
   \<and> (s \<noteq> [] \<and> \<not> IsSpace (fst (decoderune s)) \<and> \<not> IsSpace (fst (DecodeLastRune s))
        \<longrightarrow> TrimSpace s = s \<and> Parse s = map_sum id Parse_finish (Parse_scan s))
   \<and> Parse_step str pos 0x0B st = Inr (addToken 0x0B st)
   \<and> Parse_step str pos 0x0C st = Inr (addToken 0x0C st)"
proof (intro conjI impI)
  assume "\<forall>c \<in> set ws1 \<union> set ws2. asciiSpace c"
  then have "TrimSpace (ws1 @ s @ ws2) = TrimSpace s"
    by (intro TrimSpace_asciiSpace) auto
  then show "Parse (ws1 @ s @ ws2) = Parse s"
    by (simp add: Parse_def)
next
  assume "\<forall>r \<in> set rs1 \<union> set rs2. IsSpace r"
  then have "TrimSpace (string_of_runes rs1 @ s @ string_of_runes rs2) = TrimSpace s"
    by (intro TrimSpace_space_runes) auto
  then show "Parse (string_of_runes rs1 @ s @ string_of_runes rs2) = Parse s"
    by (simp add: Parse_def)
next
  assume a: "s \<noteq> [] \<and> \<not> IsSpace (fst (decoderune s)) \<and> \<not> IsSpace (fst (DecodeLastRune s))"
  then show t: "TrimSpace s = s" by (simp add: TrimSpace_unchanged)
  show "Parse s = map_sum id Parse_finish (Parse_scan s)"
    by (simp add: Parse_def t split: sum.split)
next
  show "Parse_step str pos 0x0B st = Inr (addToken 0x0B st)"
    by (rule Parse_step_ordinary) (simp_all add: ContainsRune_separator)
next
  show "Parse_step str pos 0x0C st = Inr (addToken 0x0C st)"
    by (rule Parse_step_ordinary) (simp_all add: ContainsRune_separator)
qed

theorem Parse_trims_unicode_space_witness:
  "Parse ([CHR 0x0B, CHR 0x20] @ ''ls'' @ [CHR 0x0C]) = Parse ''ls''
   \<and> Parse (string_of_runes [0xA0, 0x2003] @ ''ls'' @ string_of_runes [0x3000]) = Parse ''ls''
   \<and> TrimSpace ''ls'' = ''ls''"
proof -
  have 1: "\<forall>c \<in> set [CHR 0x0B, CHR 0x20] \<union> set [CHR 0x0C]. asciiSpace c"
    by (simp add: asciiSpace_def)
  have 2: "\<forall>r \<in> set [0xA0, 0x2003] \<union> set [0x3000]. IsSpace r"
    by (simp add: IsSpace_def)
  have 3: "''ls'' \<noteq> [] \<and> \<not> IsSpace (fst (decoderune ''ls''))
             \<and> \<not> IsSpace (fst (DecodeLastRune ''ls''))"
    by code_simp
  note Parse_trims_unicode_space [THEN conjunct1, THEN mp, OF 1, of "''ls''"]
    Parse_trims_unicode_space [THEN conjunct2, THEN conjunct1, THEN mp, OF 2, of "''ls''"]
    Parse_trims_unicode_space
      [THEN conjunct2, THEN conjunct2, THEN conjunct1, THEN mp, OF 3, THEN conjunct1]
  then show ?thesis by (intro conjI)
qed

text \<open>
  C7: for every input with balanced quotes (the scan of the trimmed input ends with
  both quote flags cleared), the token list that the tokenizer stage builds, before
  the env/argv split, has at least one element. The empty input, an input made only
  of Unicode white space, and so an input made only of the separator characters,
  each give exactly one token, the empty string. The stage fails to return a token
  list only on an input whose quotes are not balanced: one that ends, inside an open
  double-quote region, with the backslash on which the scan panics.
\<close>

theorem tokenizer_at_least_one_token:
  "(Parse_scan (TrimSpace str) = Inr st \<and> \<not> inQuotes st \<and> \<not> inDbl st
      \<longrightarrow> 1 \<le> length (Parse_tokens st))
   \<and> (\<exists>st0. Parse_scan (TrimSpace '''') = Inr st0 \<and> \<not> inQuotes st0 \<and> \<not> inDbl st0
          \<and> Parse_tokens st0 = [''''])
   \<and> ((\<forall>x \<in> set (rangeStr ws). IsSpace (snd x)) \<longrightarrow>
        (\<exists>st0. Parse_scan (TrimSpace ws) = Inr st0 \<and> \<not> inQuotes st0 \<and> \<not> inDbl st0
           \<and> Parse_tokens st0 = ['''']))
   \<and> (set ws' \<subseteq> set separator \<longrightarrow>
        (\<exists>st0. Parse_scan (TrimSpace ws') = Inr st0 \<and> \<not> inQuotes st0 \<and> \<not> inDbl st0
           \<and> Parse_tokens st0 = ['''']))
   \<and> (Parse_scan (TrimSpace str) = Inl p \<longrightarrow>
        (\<exists>xs pos st'. rangeStr (TrimSpace str) = xs @ [(pos, 0x5C)]
           \<and> Parse_loop (TrimSpace str) xs init_state = Inr st' \<and> inDbl st'))"
proof (intro conjI impI)
  show "1 \<le> length (Parse_tokens st)"
    by (simp add: Parse_tokens_def split: option.split)
next
  assume "Parse_scan (TrimSpace str) = Inl p"
  from Parse_scan_panic [OF this]
  show "\<exists>xs pos st'. rangeStr (TrimSpace str) = xs @ [(pos, 0x5C)]
           \<and> Parse_loop (TrimSpace str) xs init_state = Inr st' \<and> inDbl st'"
    by blast
next
  have "TrimSpace '''' = ''''" by (simp add: TrimSpace_def)
  then show "\<exists>st0. Parse_scan (TrimSpace '''') = Inr st0 \<and> \<not> inQuotes st0 \<and> \<not> inDbl st0
          \<and> Parse_tokens st0 = ['''']"
    by (simp add: Parse_scan_Nil Parse_tokens_init) (simp add: init_state_def)
next
  assume "\<forall>x \<in> set (rangeStr ws). IsSpace (snd x)"
  then have "TrimSpace ws = []" by (rule TrimSpace_all_space)
  then show "\<exists>st0. Parse_scan (TrimSpace ws) = Inr st0 \<and> \<not> inQuotes st0 \<and> \<not> inDbl st0
          \<and> Parse_tokens st0 = ['''']"
    by (simp add: Parse_scan_Nil Parse_tokens_init) (simp add: init_state_def)
next
  assume "set ws' \<subseteq> set separator"
  then have "TrimSpace ws' = []" by (rule TrimSpace_separators)
  then show "\<exists>st0. Parse_scan (TrimSpace ws') = Inr st0 \<and> \<not> inQuotes st0 \<and> \<not> inDbl st0
          \<and> Parse_tokens st0 = ['''']"
    by (simp add: Parse_scan_Nil Parse_tokens_init) (simp add: init_state_def)
qed

theorem tokenizer_at_least_one_token_witness:
  "1 \<le> length (Parse_tokens \<lparr>token = Some [0x2D, 0x6C], inQuotes = False, inDbl = False,
                              escaped = False, argv = [''ls'']\<rparr>)
   \<and> (\<exists>st0. Parse_scan (TrimSpace [CHR 0xC2, CHR 0xA0, CHR 0x0B]) = Inr st0
          \<and> Parse_tokens st0 = [''''])
   \<and> (\<exists>st0. Parse_scan (TrimSpace [CHR 0x20, CHR 0x09, CHR 0x20]) = Inr st0
          \<and> Parse_tokens st0 = [''''])
   \<and> (\<exists>xs pos st'. rangeStr (TrimSpace [CHR 0x22, CHR 0x5C]) = xs @ [(pos, 0x5C)]
          \<and> Parse_loop (TrimSpace [CHR 0x22, CHR 0x5C]) xs init_state = Inr st' \<and> inDbl st')"
proof -
  let ?S = "\<lparr>token = Some [0x2D, 0x6C], inQuotes = False, inDbl = False, escaped = False,
             argv = [''ls'']\<rparr>"
  have 1: "Parse_scan (TrimSpace '' ls -l '') = Inr ?S \<and> \<not> inQuotes ?S \<and> \<not> inDbl ?S"
    by code_simp
  have 2: "\<forall>x \<in> set (rangeStr [CHR 0xC2, CHR 0xA0, CHR 0x0B]). IsSpace (snd x)"
    by code_simp
  have 3: "set [CHR 0x20, CHR 0x09, CHR 0x20] \<subseteq> set separator"
    by (simp add: separator_def)
  have 4: "Parse_scan (TrimSpace [CHR 0x22, CHR 0x5C]) = Inl IndexOutOfRange"
    by code_simp
  note a = tokenizer_at_least_one_token [THEN conjunct1, THEN mp, OF 1]
  from tokenizer_at_least_one_token
         [THEN conjunct2, THEN conjunct2, THEN conjunct1, THEN mp, OF 2]
  have b: "\<exists>st0. Parse_scan (TrimSpace [CHR 0xC2, CHR 0xA0, CHR 0x0B]) = Inr st0
          \<and> Parse_tokens st0 = ['''']"
    by blast
  from tokenizer_at_least_one_token
         [THEN conjunct2, THEN conjunct2, THEN conjunct2, THEN conjunct1, THEN mp, OF 3]
  have c: "\<exists>st0. Parse_scan (TrimSpace [CHR 0x20, CHR 0x09, CHR 0x20]) = Inr st0
          \<and> Parse_tokens st0 = ['''']"
    by blast
  note d = tokenizer_at_least_one_token
         [THEN conjunct2, THEN conjunct2, THEN conjunct2, THEN conjunct2, THEN mp, OF 4]
  from a b c d show ?thesis by (intro conjI)
qed

text \<open>
  C6: \<^verbatim>\<open>Parse\<close> returns the error \<^verbatim>\<open>ErrUnbalancedQuotes\<close> exactly when the scan of
  the whole trimmed input has ended in a state with \<open>inQuotes\<close> or \<open>inDbl\<close> still
  set; the flags are examined once, in the state that the finished scan returns. With
  the error both env and argv are nil. Without the error the scan has ended with
  both flags cleared.
\<close>

theorem Parse_error_iff_open_quote:
  "(Parse str = Inr (env, args, Some e)
      \<longleftrightarrow> (\<exists>st. Parse_scan (TrimSpace str) = Inr st \<and> (inQuotes st \<or> inDbl st))
          \<and> env = [] \<and> args = [] \<and> e = ErrUnbalancedQuotes)
   \<and> ((\<exists>env' args'. Parse str = Inr (env', args', None))
      \<longleftrightarrow> (\<exists>st. Parse_scan (TrimSpace str) = Inr st \<and> \<not> inQuotes st \<and> \<not> inDbl st))"
  by (cases "Parse_scan (TrimSpace str)"; cases e)
     (auto simp: Parse_def Parse_finish_def Let_def case_prod_beta)

theorem Parse_error_iff_open_quote_witness:
  "Parse [CHR 0x27, CHR ''a'', CHR ''b'', CHR ''c''] = Inr ([], [], Some ErrUnbalancedQuotes)"
proof -
  let ?S = "\<lparr>token = Some [0x61, 0x62, 0x63], inQuotes = True, inDbl = False, escaped = False,
             argv = []\<rparr>"
  have "Parse_scan (TrimSpace [CHR 0x27, CHR ''a'', CHR ''b'', CHR ''c'']) = Inr ?S"
    by code_simp
  then have "\<exists>st. Parse_scan (TrimSpace [CHR 0x27, CHR ''a'', CHR ''b'', CHR ''c'']) = Inr st
                \<and> (inQuotes st \<or> inDbl st)"
    by simp
  then show ?thesis
    using Parse_error_iff_open_quote
            [THEN conjunct1, of "[CHR 0x27, CHR ''a'', CHR ''b'', CHR ''c'']" "[]" "[]"
              ErrUnbalancedQuotes]
    by simp
qed

end
